theory Spec2Isabelle
  imports Main
begin

section \<open>Data model\<close>

text \<open>
  \<^verbatim>\<open>export type Key = string | number\<close>: a path segment. A JS \<^verbatim>\<open>Map\<close> or
  \<^verbatim>\<open>Set\<close> tells the string \<^verbatim>\<open>"1"\<close> from the number \<^verbatim>\<open>1\<close>, and so does this type.
\<close>

datatype key = StrKey string | NumKey int

text \<open>JS values: scalars, and references to objects of the heap.\<close>

type_synonym addr = nat

datatype jsval = VUndefined | VNull | VBool bool | VNum int | VStr string | VRef addr

text \<open>
  An edit of the Producer, in the JSON Patch shape
  \<^verbatim>\<open>{op: "add"|"replace"|"remove", path: [segment, ...], value?: any}\<close>.
\<close>

datatype op_kind = Add | Replace | Remove

record patch =
  op :: op_kind
  path :: "key list"
  pvalue :: "jsval option"

type_synonym Patches = "patch list"

text \<open>
  An object is its own enumerable properties in insertion order; the heap holds the
  objects, an address is an index into it. \<^verbatim>\<open>o[name]\<close> of a missing property is
  \<^verbatim>\<open>undefined\<close>. No JS reference points outside the heap; \<^verbatim>\<open>deref\<close> is total and
  gives the empty object there, and a theorem that needs a reference to point into the
  heap says so.
\<close>

type_synonym obj = "(string \<times> jsval) list"

type_synonym heap = "obj list"

definition deref :: "heap \<Rightarrow> addr \<Rightarrow> obj" where
  "deref h a = (if a < length h then h ! a else [])"

definition property :: "obj \<Rightarrow> string \<Rightarrow> jsval" where
  "property ob name = (case map_of ob name of None \<Rightarrow> VUndefined | Some v \<Rightarrow> v)"

definition object_keys :: "obj \<Rightarrow> string list" where
  "object_keys ob = map fst ob"

text \<open>\<^verbatim>\<open>{...o}\<close>: a new object with the properties of \<^verbatim>\<open>o\<close>; its address is fresh.\<close>

definition alloc :: "heap \<Rightarrow> obj \<Rightarrow> heap \<times> addr" where
  "alloc h ob = (h @ [ob], length h)"

text \<open>
  \<^verbatim>\<open>o[name] = v\<close>: an own property keeps its place and takes the value, a new one goes
  to the end. \<^verbatim>\<open>assign_slot\<close> does it to the object at an address.
\<close>

fun assign_prop :: "(string \<times> 'a) list \<Rightarrow> string \<Rightarrow> 'a \<Rightarrow> (string \<times> 'a) list" where
  "assign_prop [] name v = [(name, v)]"
| "assign_prop ((n, w) # rest) name v =
     (if n = name then (n, v) # rest else (n, w) # assign_prop rest name v)"

definition assign_slot :: "heap \<Rightarrow> addr \<Rightarrow> string \<Rightarrow> jsval \<Rightarrow> heap" where
  "assign_slot h a name v = (if a < length h then h[a := assign_prop (h ! a) name v] else h)"

datatype error = ProtocolViolation

section \<open>Event names\<close>

text \<open>
  \<^verbatim>\<open>`${fieldKey}:updated`\<close>. The template renders a string as itself and an integer in
  decimal.
\<close>

definition digit :: "nat \<Rightarrow> char" where
  "digit d = ''0123456789'' ! d"

function natToString :: "nat \<Rightarrow> string" where
  "natToString n = (if n < 10 then [digit n] else natToString (n div 10) @ [digit (n mod 10)])"
  by pat_completeness auto
termination
  by (relation "measure id") auto

declare natToString.simps [simp del]

definition numberToString :: "int \<Rightarrow> string" where
  "numberToString i = (if i < 0 then CHR ''-'' # natToString (nat (- i)) else natToString (nat i))"

fun keyToString :: "key \<Rightarrow> string" where
  "keyToString (StrKey s) = s"
| "keyToString (NumKey n) = numberToString n"

definition eventName :: "key \<Rightarrow> string" where
  "eventName fieldKey = keyToString fieldKey @ '':updated''"

section \<open>Patch grouper\<close>

text \<open>
  A \<^verbatim>\<open>Map<string, Patches>\<close> in insertion order. \<^verbatim>\<open>group_push\<close> is the source's
  \<^verbatim>\<open>let g = m.get(k); if (!g) { g = []; m.set(k, g) }; g.push(patch)\<close>: a new key goes to
  the end, a known key keeps its place and its array grows at the end.
\<close>

type_synonym groups = "(key \<times> Patches) list"

fun group_push :: "groups \<Rightarrow> key \<Rightarrow> patch \<Rightarrow> groups" where
  "group_push [] k p = [(k, [p])]"
| "group_push ((k', g) # rest) k p =
     (if k' = k then (k', g @ [p]) # rest else (k', g) # group_push rest k p)"

text \<open>
  The loop of \<^verbatim>\<open>groupPatchesByField\<close>, on the two maps it fills. An edit with an
  empty path throws; otherwise the edit joins \<^verbatim>\<open>topLevel\<close> when its path has one or
  two segments, and always joins \<^verbatim>\<open>all\<close>.
\<close>

fun groupLoop :: "Patches \<Rightarrow> groups \<times> groups \<Rightarrow> error + (groups \<times> groups)" where
  "groupLoop [] (topLevel, all) = Inr (topLevel, all)"
| "groupLoop (p # ps) (topLevel, all) =
     (case path p of
        [] \<Rightarrow> Inl ProtocolViolation
      | fieldKey # _ \<Rightarrow>
          (let topLevel' =
                 (if length (path p) = 1 \<or> length (path p) = 2
                  then group_push topLevel fieldKey p else topLevel);
               all' = group_push all fieldKey p
           in groupLoop ps (topLevel', all')))"

definition groupPatchesByField :: "Patches \<Rightarrow> error + (groups \<times> groups)" where
  "groupPatchesByField patches = groupLoop patches ([], [])"

text \<open>
  \<^verbatim>\<open>extractSecondKeysFromPatches\<close>: a \<^verbatim>\<open>Set<Key>\<close> in insertion order; adding a
  member again changes nothing.
\<close>

definition set_add :: "key list \<Rightarrow> key \<Rightarrow> key list" where
  "set_add ks k = (if k \<in> set ks then ks else ks @ [k])"

fun extractLoop :: "Patches \<Rightarrow> key list \<Rightarrow> key list" where
  "extractLoop [] keys = keys"
| "extractLoop (p # ps) keys =
     (if length (path p) > 1 then extractLoop ps (set_add keys (path p ! 1))
      else extractLoop ps keys)"

definition extractSecondKeysFromPatches :: "Patches \<Rightarrow> key list" where
  "extractSecondKeysFromPatches patches = extractLoop patches []"

section \<open>Event router\<close>

text \<open>
  The router is the package \<^verbatim>\<open>radiate\<close> (\<^verbatim>\<open>createEmitter\<close>), which the store
  imports and which is not among the sources. Its tables and operations are written
  here from section 4.2 of the specification, each under the sentence it follows.

  A listener is a function object. The store hands two kinds to the router: a callback
  of the caller, known by its identity, and the closure
  \<^verbatim>\<open>() => { callback(this.get(key)) }\<close> that a subscription handler builds around a
  callback of the caller and a field key. The body of a caller's callback is the
  caller's code: the model records that it is called and with what.
\<close>

type_synonym callback = nat

datatype listener = UserCb callback | ValueCb string callback

datatype cb_arg = ArgPatches Patches | ArgKeyPatches key Patches | ArgValue jsval

text \<open>
  Modelled from the spec: a registration of the router, which is missing from the
  sources. "One-shot variants [...] self-remove after their first invocation"; the
  returned closure "removes exactly that callback instance", so a registration has an
  identity of its own.
\<close>

record registration =
  reg_id :: nat
  reg_cb :: listener
  reg_once :: bool

text \<open>
  Modelled from the spec: the listener tables of the router, missing from the sources.
  "Plain listeners: ordered list of callbacks"; "keyed listeners: nested mapping
  event \<rightarrow> key \<rightarrow> ordered list of callbacks, plus a wildcard bucket event \<rightarrow> '*' \<rightarrow>
  ordered list of callbacks". The keyed registrations of an event are kept in one list
  in registration order, each with its key; those of one key are the sublist for it.
\<close>

record emitter =
  plainL :: "string \<Rightarrow> registration list"
  keyedL :: "string \<Rightarrow> (key \<times> registration) list"
  wildL :: "string \<Rightarrow> registration list"
  next_id :: nat

text \<open>
  Modelled from the spec: the closure that a subscription of the router returns, missing
  from the sources; it names the table, the event and the registration it removes.
\<close>

datatype unsubscribe = UnsubPlain string nat | UnsubKeyed string nat | UnsubWild string nat

text \<open>Modelled from the spec: \<^verbatim>\<open>createEmitter()\<close>, a router without listeners.\<close>

definition createEmitter :: emitter where
  "createEmitter = \<lparr>plainL = (\<lambda>_. []), keyedL = (\<lambda>_. []), wildL = (\<lambda>_. []), next_id = 0\<rparr>"

text \<open>
  Modelled from the spec: the wildcard test of the router, "the wildcard bucket when
  \<^verbatim>\<open>key === '*'\<close>".
\<close>

definition is_wildcard :: "key \<Rightarrow> bool" where
  "is_wildcard k = (k = StrKey ''*'')"

text \<open>
  Modelled from the spec: \<^verbatim>\<open>on\<close> and \<^verbatim>\<open>once\<close> of the router. "\<^verbatim>\<open>on(event, cb)\<close>:
  appends \<^verbatim>\<open>cb\<close> to the plain list for \<^verbatim>\<open>event\<close>; returns a closure that removes
  exactly that callback instance"; "\<^verbatim>\<open>once\<close>: as \<^verbatim>\<open>on\<close>, but [...] after its first
  invocation it is automatically removed".
\<close>

definition add_plain :: "bool \<Rightarrow> emitter \<Rightarrow> string \<Rightarrow> listener \<Rightarrow> emitter \<times> unsubscribe" where
  "add_plain one_shot em ev cb =
     (em\<lparr>plainL := (plainL em)
            (ev := plainL em ev @ [\<lparr>reg_id = next_id em, reg_cb = cb, reg_once = one_shot\<rparr>]),
         next_id := Suc (next_id em)\<rparr>,
      UnsubPlain ev (next_id em))"

definition em_on :: "emitter \<Rightarrow> string \<Rightarrow> listener \<Rightarrow> emitter \<times> unsubscribe" where
  "em_on = add_plain False"

definition em_once :: "emitter \<Rightarrow> string \<Rightarrow> listener \<Rightarrow> emitter \<times> unsubscribe" where
  "em_once = add_plain True"

text \<open>
  Modelled from the spec: \<^verbatim>\<open>onKeyed\<close> and \<^verbatim>\<open>onceKeyed\<close> of the router. "Registers
  under the nested event \<rightarrow> key table, or the wildcard bucket when \<^verbatim>\<open>key === '*'\<close>";
  "\<^verbatim>\<open>onceKeyed\<close>: one-shot keyed/wildcard variant".
\<close>

definition add_keyed ::
  "bool \<Rightarrow> emitter \<Rightarrow> string \<Rightarrow> key \<Rightarrow> listener \<Rightarrow> emitter \<times> unsubscribe" where
  "add_keyed one_shot em ev k cb =
     (let r = \<lparr>reg_id = next_id em, reg_cb = cb, reg_once = one_shot\<rparr>
      in if is_wildcard k
         then (em\<lparr>wildL := (wildL em)(ev := wildL em ev @ [r]), next_id := Suc (next_id em)\<rparr>,
               UnsubWild ev (next_id em))
         else (em\<lparr>keyedL := (keyedL em)(ev := keyedL em ev @ [(k, r)]),
                  next_id := Suc (next_id em)\<rparr>,
               UnsubKeyed ev (next_id em)))"

definition em_onKeyed :: "emitter \<Rightarrow> string \<Rightarrow> key \<Rightarrow> listener \<Rightarrow> emitter \<times> unsubscribe" where
  "em_onKeyed = add_keyed False"

definition em_onceKeyed :: "emitter \<Rightarrow> string \<Rightarrow> key \<Rightarrow> listener \<Rightarrow> emitter \<times> unsubscribe" where
  "em_onceKeyed = add_keyed True"

text \<open>
  Modelled from the spec: \<^verbatim>\<open>off\<close> and \<^verbatim>\<open>offKeyed\<close> of the router. "\<^verbatim>\<open>off(event, cb)\<close>:
  removes the first/any registration of \<^verbatim>\<open>cb\<close> from the plain list; removing a callback
  not present is a no-op"; "\<^verbatim>\<open>offKeyed(event, key, cb)\<close>: symmetric removal".
\<close>

fun remove_first :: "('a \<Rightarrow> bool) \<Rightarrow> 'a list \<Rightarrow> 'a list" where
  "remove_first P [] = []"
| "remove_first P (x # xs) = (if P x then xs else x # remove_first P xs)"

definition em_off :: "emitter \<Rightarrow> string \<Rightarrow> listener \<Rightarrow> emitter" where
  "em_off em ev cb =
     em\<lparr>plainL := (plainL em)(ev := remove_first (\<lambda>r. reg_cb r = cb) (plainL em ev))\<rparr>"

definition em_offKeyed :: "emitter \<Rightarrow> string \<Rightarrow> key \<Rightarrow> listener \<Rightarrow> emitter" where
  "em_offKeyed em ev k cb =
     (if is_wildcard k
      then em\<lparr>wildL := (wildL em)(ev := remove_first (\<lambda>r. reg_cb r = cb) (wildL em ev))\<rparr>
      else em\<lparr>keyedL := (keyedL em)
                 (ev := remove_first (\<lambda>(k', r). k' = k \<and> reg_cb r = cb) (keyedL em ev))\<rparr>)"

text \<open>
  Modelled from the spec: calling the closure that a subscription of the router returned.
  It "removes exactly that callback instance (idempotent: calling it twice, or after the
  callback already fired/was removed, is a no-op, not an error)".
\<close>

fun em_unsubscribe :: "emitter \<Rightarrow> unsubscribe \<Rightarrow> emitter" where
  "em_unsubscribe em (UnsubPlain ev i) =
     em\<lparr>plainL := (plainL em)(ev := remove_first (\<lambda>r. reg_id r = i) (plainL em ev))\<rparr>"
| "em_unsubscribe em (UnsubKeyed ev i) =
     em\<lparr>keyedL := (keyedL em)(ev := remove_first (\<lambda>(k, r). reg_id r = i) (keyedL em ev))\<rparr>"
| "em_unsubscribe em (UnsubWild ev i) =
     em\<lparr>wildL := (wildL em)(ev := remove_first (\<lambda>r. reg_id r = i) (wildL em ev))\<rparr>"

text \<open>
  Modelled from the spec: \<^verbatim>\<open>hasKeyedListeners\<close> of the router, "true if any
  specific-key or wildcard keyed listener is registered for that event".
\<close>

definition hasKeyedListeners :: "emitter \<Rightarrow> string \<Rightarrow> bool" where
  "hasKeyedListeners em ev = (keyedL em ev \<noteq> [] \<or> wildL em ev \<noteq> [])"

text \<open>
  Modelled from the spec: what an emission of the router leaves of a list of
  registrations; the one-shot ones have fired and are gone.
\<close>

definition keep :: "registration list \<Rightarrow> registration list" where
  "keep rs = filter (\<lambda>r. \<not> reg_once r) rs"

text \<open>
  Modelled from the spec: \<^verbatim>\<open>emit\<close> of the router. "Invokes every plain listener for
  \<^verbatim>\<open>event\<close>, in registration order, each with \<^verbatim>\<open>edits\<close>." The result is the router
  after the emission and the listeners invoked, in order, each with its arguments.
\<close>

definition emit :: "emitter \<Rightarrow> string \<Rightarrow> Patches \<Rightarrow> emitter \<times> (listener \<times> cb_arg) list" where
  "emit em ev edits =
     (em\<lparr>plainL := (plainL em)(ev := keep (plainL em ev))\<rparr>,
      map (\<lambda>r. (reg_cb r, ArgPatches edits)) (plainL em ev))"

text \<open>
  Modelled from the spec: \<^verbatim>\<open>emitKeyed\<close> of the router. "Invokes every listener
  registered for the exact \<^verbatim>\<open>key\<close> under \<^verbatim>\<open>event\<close>, in registration order, each with
  \<^verbatim>\<open>edits\<close>; then invokes every wildcard listener for \<^verbatim>\<open>event\<close>, in registration
  order, each with \<^verbatim>\<open>(key, edits)\<close>."
\<close>

definition emitKeyed ::
  "emitter \<Rightarrow> string \<Rightarrow> key \<Rightarrow> Patches \<Rightarrow> emitter \<times> (listener \<times> cb_arg) list" where
  "emitKeyed em ev k edits =
     (em\<lparr>keyedL := (keyedL em)
            (ev := filter (\<lambda>(k', r). \<not> (k' = k \<and> reg_once r)) (keyedL em ev)),
         wildL := (wildL em)(ev := keep (wildL em ev))\<rparr>,
      map (\<lambda>(k', r). (reg_cb r, ArgPatches edits)) (filter (\<lambda>(k', r). k' = k) (keyedL em ev))
      @ map (\<lambda>r. (reg_cb r, ArgKeyPatches k edits)) (wildL em ev))"

section \<open>Observable store\<close>

text \<open>
  The Producer, \<^verbatim>\<open>CreateFunction\<close>: from the heap, the state and the mutation function
  to the heap it leaves, the new state and the edits. The mutation function is the
  caller's; the store only passes it on. \<^verbatim>\<open>recordPatches\<close> of the package
  \<^verbatim>\<open>patch-recorder\<close> is a parameter: it mutates the state in place and returns the
  edits, and \<^verbatim>\<open>createFromPatchRecorder\<close> returns the same state reference with them.
\<close>

type_synonym 'm CreateFunction = "heap \<Rightarrow> addr \<Rightarrow> 'm \<Rightarrow> heap \<times> addr \<times> Patches"

type_synonym 'm RecordPatches = "heap \<Rightarrow> addr \<Rightarrow> 'm \<Rightarrow> heap \<times> Patches"

definition createFromPatchRecorder :: "'m RecordPatches \<Rightarrow> 'm CreateFunction" where
  "createFromPatchRecorder recordPatches h st mutate =
     (case recordPatches h st mutate of (h', patches) \<Rightarrow> (h', st, patches))"

record 'm ObservableStoreOptions =
  createFunction :: "'m CreateFunction option"

text \<open>
  The functions that \<^verbatim>\<open>createSubscribeHandlers\<close> and
  \<^verbatim>\<open>createKeyedSubscribeHandlers\<close> store under each key: closures over the key.
\<close>

datatype subscribe_handler = SubscribeHandler string

datatype keyed_subscribe_handler = KeyedSubscribeHandler string

record 'm store =
  state :: addr
  emitter :: emitter
  subscriptions :: "(string \<times> subscribe_handler) list"
  keyedSubscriptions :: "(string \<times> keyed_subscribe_handler) list"
  create :: "'m CreateFunction"

type_synonym 'm world = "heap \<times> 'm store"

definition createSubscribeHandlers :: "heap \<Rightarrow> addr \<Rightarrow> (string \<times> subscribe_handler) list" where
  "createSubscribeHandlers h st =
     foldl (\<lambda>subs k. assign_prop subs k (SubscribeHandler k)) [] (object_keys (deref h st))"

definition createKeyedSubscribeHandlers ::
  "heap \<Rightarrow> addr \<Rightarrow> (string \<times> keyed_subscribe_handler) list" where
  "createKeyedSubscribeHandlers h st =
     foldl (\<lambda>subs k. assign_prop subs k (KeyedSubscribeHandler k)) [] (object_keys (deref h st))"

text \<open>The constructor, and \<^verbatim>\<open>createObservableStore\<close>, which calls it.\<close>

definition new_ObservableStore ::
  "'m RecordPatches \<Rightarrow> heap \<Rightarrow> addr \<Rightarrow> 'm ObservableStoreOptions option \<Rightarrow> 'm store" where
  "new_ObservableStore recordPatches h st options =
     \<lparr>state = st,
      emitter = createEmitter,
      subscriptions = createSubscribeHandlers h st,
      keyedSubscriptions = createKeyedSubscribeHandlers h st,
      create = (case options of
                  None \<Rightarrow> createFromPatchRecorder recordPatches
                | Some opts \<Rightarrow>
                    (case createFunction opts of
                       None \<Rightarrow> createFromPatchRecorder recordPatches
                     | Some c \<Rightarrow> c))\<rparr>"

definition createObservableStore ::
  "'m RecordPatches \<Rightarrow> heap \<Rightarrow> addr \<Rightarrow> 'm ObservableStoreOptions option \<Rightarrow> 'm world" where
  "createObservableStore recordPatches h st options =
     (h, new_ObservableStore recordPatches h st options)"

fun get :: "'m world \<Rightarrow> string \<Rightarrow> jsval" where
  "get (h, s) name = property (deref h (state s)) name"

text \<open>\<^verbatim>\<open>getState\<close> returns \<^verbatim>\<open>{...this.state}\<close>: the heap with the copy, and its address.\<close>

fun getState :: "'m world \<Rightarrow> heap \<times> addr" where
  "getState (h, s) = alloc h (deref h (state s))"

text \<open>
  What \<^verbatim>\<open>update\<close> does, in order: its calls of \<^verbatim>\<open>emit\<close>,
  \<^verbatim>\<open>extractSecondKeysFromPatches\<close> and \<^verbatim>\<open>emitKeyed\<close>, and between them the
  callbacks of the caller that the router invokes.
\<close>

datatype call =
  is_EmitCall: EmitCall string Patches
| is_ExtractCall: ExtractCall Patches
| is_EmitKeyedCall: EmitKeyedCall string key Patches
| is_Callback: Callback callback cb_arg

text \<open>
  Invoking a listener: a callback of the caller gets the router's arguments, the
  closure of a subscription handler calls its callback with \<^verbatim>\<open>this.get(key)\<close>.
\<close>

fun deliver :: "'m world \<Rightarrow> listener \<times> cb_arg \<Rightarrow> call" where
  "deliver w (UserCb c, a) = Callback c a"
| "deliver w (ValueCb k c, a) = Callback c (ArgValue (get w k))"

fun emitKeyedLoop ::
  "(listener \<times> cb_arg \<Rightarrow> call) \<Rightarrow> emitter \<Rightarrow> string \<Rightarrow> key list \<Rightarrow> Patches
   \<Rightarrow> emitter \<times> call list" where
  "emitKeyedLoop run em ev [] fieldPatches = (em, [])"
| "emitKeyedLoop run em ev (changedKey # rest) fieldPatches =
     (case emitKeyed em ev changedKey fieldPatches of
        (em1, invoked) \<Rightarrow>
          (case emitKeyedLoop run em1 ev rest fieldPatches of
             (em2, log) \<Rightarrow>
               (em2, EmitKeyedCall ev changedKey fieldPatches # map run invoked @ log)))"

text \<open>The body of the loop over \<^verbatim>\<open>all.entries()\<close>.\<close>

definition emitField ::
  "(listener \<times> cb_arg \<Rightarrow> call) \<Rightarrow> emitter \<Rightarrow> key \<times> Patches \<Rightarrow> emitter \<times> call list" where
  "emitField run em entry =
     (case entry of (fieldKey, fieldPatches) \<Rightarrow>
        (case emit em (eventName fieldKey) fieldPatches of
           (em1, invoked) \<Rightarrow>
             if hasKeyedListeners em1 (eventName fieldKey)
             then (case emitKeyedLoop run em1 (eventName fieldKey)
                          (extractSecondKeysFromPatches fieldPatches) fieldPatches of
                     (em2, log) \<Rightarrow>
                       (em2, EmitCall (eventName fieldKey) fieldPatches # map run invoked
                             @ ExtractCall fieldPatches # log))
             else (em1, EmitCall (eventName fieldKey) fieldPatches # map run invoked)))"

fun emitLoop ::
  "(listener \<times> cb_arg \<Rightarrow> call) \<Rightarrow> emitter \<Rightarrow> groups \<Rightarrow> emitter \<times> call list" where
  "emitLoop run em [] = (em, [])"
| "emitLoop run em (entry # rest) =
     (case emitField run em entry of
        (em1, log1) \<Rightarrow>
          (case emitLoop run em1 rest of (em2, log2) \<Rightarrow> (em2, log1 @ log2)))"

text \<open>
  \<^verbatim>\<open>update\<close>: the store after the call, what the call did, and its result, the
  error thrown or the value returned.
\<close>

fun update :: "'m \<Rightarrow> 'm world \<Rightarrow> 'm world \<times> call list \<times> (error + Patches)" where
  "update mutate (h, s) =
     (case create s h (state s) mutate of
        (h1, newState, patches) \<Rightarrow>
          (let s1 = s\<lparr>state := newState\<rparr>
           in case groupPatchesByField patches of
                Inl e \<Rightarrow> ((h1, s1), [], Inl e)
              | Inr (topLevel, all) \<Rightarrow>
                  (case emitLoop (deliver (h1, s1)) (emitter s1) all of
                     (em', log) \<Rightarrow> ((h1, s1\<lparr>emitter := em'\<rparr>), log, Inr patches))))"

text \<open>The subscription methods of the store pass their arguments on to the router.\<close>

fun on :: "'m world \<Rightarrow> string \<Rightarrow> callback \<Rightarrow> 'm world \<times> unsubscribe" where
  "on (h, s) event cb =
     (case em_on (emitter s) event (UserCb cb) of (em', u) \<Rightarrow> ((h, s\<lparr>emitter := em'\<rparr>), u))"

fun off :: "'m world \<Rightarrow> string \<Rightarrow> callback \<Rightarrow> 'm world" where
  "off (h, s) event cb = (h, s\<lparr>emitter := em_off (emitter s) event (UserCb cb)\<rparr>)"

fun once :: "'m world \<Rightarrow> string \<Rightarrow> callback \<Rightarrow> 'm world \<times> unsubscribe" where
  "once (h, s) event cb =
     (case em_once (emitter s) event (UserCb cb) of (em', u) \<Rightarrow> ((h, s\<lparr>emitter := em'\<rparr>), u))"

fun onKeyed :: "'m world \<Rightarrow> string \<Rightarrow> key \<Rightarrow> callback \<Rightarrow> 'm world \<times> unsubscribe" where
  "onKeyed (h, s) event k cb =
     (case em_onKeyed (emitter s) event k (UserCb cb) of
        (em', u) \<Rightarrow> ((h, s\<lparr>emitter := em'\<rparr>), u))"

fun offKeyed :: "'m world \<Rightarrow> string \<Rightarrow> key \<Rightarrow> callback \<Rightarrow> 'm world" where
  "offKeyed (h, s) event k cb =
     (h, s\<lparr>emitter := em_offKeyed (emitter s) event k (UserCb cb)\<rparr>)"

fun onceKeyed :: "'m world \<Rightarrow> string \<Rightarrow> key \<Rightarrow> callback \<Rightarrow> 'm world \<times> unsubscribe" where
  "onceKeyed (h, s) event k cb =
     (case em_onceKeyed (emitter s) event k (UserCb cb) of
        (em', u) \<Rightarrow> ((h, s\<lparr>emitter := em'\<rparr>), u))"

fun call_unsubscribe :: "'m world \<Rightarrow> unsubscribe \<Rightarrow> 'm world" where
  "call_unsubscribe (h, s) u = (h, s\<lparr>emitter := em_unsubscribe (emitter s) u\<rparr>)"

text \<open>
  The bodies of the handlers. \<^verbatim>\<open>String(key)\<close> of a string key is the key.
\<close>

fun call_subscribe_handler ::
  "subscribe_handler \<Rightarrow> callback \<Rightarrow> 'm world \<Rightarrow> 'm world \<times> call list \<times> unsubscribe" where
  "call_subscribe_handler (SubscribeHandler k) cb (h, s) =
     (case em_on (emitter s) (eventName (StrKey k)) (ValueCb k cb) of
        (em', u) \<Rightarrow>
          ((h, s\<lparr>emitter := em'\<rparr>), [Callback cb (ArgValue (get (h, s) k))], u))"

fun call_keyed_subscribe_handler ::
  "keyed_subscribe_handler \<Rightarrow> key \<Rightarrow> callback \<Rightarrow> 'm world
   \<Rightarrow> 'm world \<times> call list \<times> unsubscribe" where
  "call_keyed_subscribe_handler (KeyedSubscribeHandler k) subscriptionKey cb (h, s) =
     (case em_onKeyed (emitter s) (eventName (StrKey k)) subscriptionKey (ValueCb k cb) of
        (em', u) \<Rightarrow>
          ((h, s\<lparr>emitter := em'\<rparr>), [Callback cb (ArgValue (get (h, s) k))], u))"

text \<open>
  \<^verbatim>\<open>store.subscriptions[name](cb)\<close> and \<^verbatim>\<open>store.keyedSubscriptions[name](key)(cb)\<close>:
  the map has a handler under the name or has nothing there, and then there is nothing
  to call.
\<close>

fun subscribe ::
  "string \<Rightarrow> callback \<Rightarrow> 'm world \<Rightarrow> ('m world \<times> call list \<times> unsubscribe) option" where
  "subscribe name cb (h, s) =
     (case map_of (subscriptions s) name of
        None \<Rightarrow> None
      | Some handler \<Rightarrow> Some (call_subscribe_handler handler cb (h, s)))"

fun keyedSubscribe ::
  "string \<Rightarrow> key \<Rightarrow> callback \<Rightarrow> 'm world
   \<Rightarrow> ('m world \<times> call list \<times> unsubscribe) option" where
  "keyedSubscribe name subscriptionKey cb (h, s) =
     (case map_of (keyedSubscriptions s) name of
        None \<Rightarrow> None
      | Some handler \<Rightarrow> Some (call_keyed_subscribe_handler handler subscriptionKey cb (h, s)))"

section \<open>Sequences of public operations\<close>

datatype 'm operation =
  Update 'm
| Get string
| GetState
| On string callback
| Off string callback
| Once string callback
| OnKeyed string key callback
| OffKeyed string key callback
| OnceKeyed string key callback
| Subscribe string callback
| KeyedSubscribe string key callback
| Unsubscribe unsubscribe

fun exec :: "'m operation \<Rightarrow> 'm world \<Rightarrow> 'm world" where
  "exec (Update mutate) w = fst (update mutate w)"
| "exec (Get name) w = w"
| "exec GetState w = (fst (getState w), snd w)"
| "exec (On ev cb) w = fst (on w ev cb)"
| "exec (Off ev cb) w = off w ev cb"
| "exec (Once ev cb) w = fst (once w ev cb)"
| "exec (OnKeyed ev k cb) w = fst (onKeyed w ev k cb)"
| "exec (OffKeyed ev k cb) w = offKeyed w ev k cb"
| "exec (OnceKeyed ev k cb) w = fst (onceKeyed w ev k cb)"
| "exec (Subscribe name cb) w = (case subscribe name cb w of None \<Rightarrow> w | Some r \<Rightarrow> fst r)"
| "exec (KeyedSubscribe name k cb) w =
     (case keyedSubscribe name k cb w of None \<Rightarrow> w | Some r \<Rightarrow> fst r)"
| "exec (Unsubscribe u) w = call_unsubscribe w u"

fun execs :: "'m operation list \<Rightarrow> 'm world \<Rightarrow> 'm world" where
  "execs [] w = w"
| "execs (x # xs) w = execs xs (exec x w)"

section \<open>The specification's notions\<close>

text \<open>
  What the specification speaks of, written down independently of the loops of the
  source: the first segment of an edit, the fields of an edit list in the order of their
  first appearance, the edits of one field in the order produced, and the second
  segments of the edits that have one.
\<close>

text \<open>
  \<^verbatim>\<open>first_occurrences\<close> keeps the first occurrence of each element, in order.
  \<^verbatim>\<open>emissions_of\<close> counts the plain emissions of an event in a trace.
\<close>

definition firstSegment :: "patch \<Rightarrow> key option" where
  "firstSegment p = (case path p of [] \<Rightarrow> None | k # _ \<Rightarrow> Some k)"

fun first_occurrences :: "'a list \<Rightarrow> 'a list" where
  "first_occurrences [] = []"
| "first_occurrences (x # xs) = x # filter (\<lambda>y. y \<noteq> x) (first_occurrences xs)"

definition fieldsOf :: "Patches \<Rightarrow> key list" where
  "fieldsOf patches = first_occurrences (List.map_filter firstSegment patches)"

definition editsOf :: "key \<Rightarrow> Patches \<Rightarrow> Patches" where
  "editsOf F patches = filter (\<lambda>p. firstSegment p = Some F) patches"

definition secondSegments :: "Patches \<Rightarrow> key list" where
  "secondSegments patches = map (\<lambda>p. path p ! 1) (filter (\<lambda>p. 2 \<le> length (path p)) patches)"

fun is_emission_of :: "string \<Rightarrow> call \<Rightarrow> bool" where
  "is_emission_of ev (EmitCall e g) = (e = ev)"
| "is_emission_of ev _ = False"

definition emissions_of :: "string \<Rightarrow> call list \<Rightarrow> nat" where
  "emissions_of ev log = length (filter (is_emission_of ev) log)"

section \<open>References that point into the heap\<close>

text \<open>
  In JS a reference always points to an object. The state of a store is a reference, and
  so is the state that a Producer returns: \<^verbatim>\<open>valid_world\<close> says the first,
  \<^verbatim>\<open>wf_create\<close> the second.
\<close>

definition valid_world :: "'m world \<Rightarrow> bool" where
  "valid_world w = (state (snd w) < length (fst w))"

definition wf_create :: "'m CreateFunction \<Rightarrow> bool" where
  "wf_create c =
     (\<forall>h st m. st < length h \<longrightarrow> (case c h st m of (h', st', ps) \<Rightarrow> st' < length h'))"

section \<open>A router with one more plain listener\<close>

text \<open>
  \<^verbatim>\<open>extends r ev em em'\<close>: the router \<^verbatim>\<open>em'\<close> has the listeners of \<^verbatim>\<open>em\<close> and, last
  in the plain list of the event \<^verbatim>\<open>ev\<close>, the registration \<^verbatim>\<open>r\<close>. Two stores are
  \<^verbatim>\<open>related\<close> when they differ by that only.
\<close>

definition extends :: "registration \<Rightarrow> string \<Rightarrow> emitter \<Rightarrow> emitter \<Rightarrow> bool" where
  "extends r ev em em' =
     (plainL em' = (plainL em)(ev := plainL em ev @ [r])
      \<and> keyedL em' = keyedL em \<and> wildL em' = wildL em)"

definition related :: "registration \<Rightarrow> string \<Rightarrow> 'm world \<Rightarrow> 'm world \<Rightarrow> bool" where
  "related r ev w w' =
     (fst w' = fst w \<and> state (snd w') = state (snd w) \<and> create (snd w') = create (snd w)
      \<and> extends r ev (emitter (snd w)) (emitter (snd w')))"

section \<open>Example stores and edits\<close>

text \<open>
  A state with two fields, \<^verbatim>\<open>users\<close> (a record of two users) and \<^verbatim>\<open>count\<close>. The
  mutation of the examples is the list of edits to report. \<^verbatim>\<open>reportEdits\<close> stands for
  \<^verbatim>\<open>recordPatches\<close> and leaves the heap alone, \<^verbatim>\<open>replaceState\<close> is a Producer that
  returns a new state object, \<^verbatim>\<open>addField\<close> one that adds a top-level field in place.
  \<^verbatim>\<open>ex_world_keyed\<close> has a plain listener, a listener for the key \<^verbatim>\<open>u1\<close> and a
  wildcard listener on the event of \<^verbatim>\<open>users\<close>.
\<close>

definition ex_heap :: heap where
  "ex_heap =
     [[(''users'', VRef 1), (''count'', VRef 2)],
      [(''u1'', VRef 3), (''u2'', VRef 4)],
      [(''value'', VNum 0)],
      [(''name'', VStr ''John'')],
      [(''name'', VStr ''Jane'')]]"

definition reportEdits :: "Patches RecordPatches" where
  "reportEdits h st edits = (h, edits)"

definition replaceState :: "Patches CreateFunction" where
  "replaceState h st edits = (h @ [[(''count'', VRef 2)]], length h, edits)"

definition addField :: "Patches CreateFunction" where
  "addField h st edits = (assign_slot h st ''extra'' (VRef 2), st, edits)"

definition ex_world :: "Patches world" where
  "ex_world = createObservableStore reportEdits ex_heap 0 None"

definition ex_world_replacing :: "Patches world" where
  "ex_world_replacing =
     createObservableStore reportEdits ex_heap 0 (Some \<lparr>createFunction = Some replaceState\<rparr>)"

definition ex_world_adding :: "Patches world" where
  "ex_world_adding =
     createObservableStore reportEdits ex_heap 0 (Some \<lparr>createFunction = Some addField\<rparr>)"

definition ex_world_keyed :: "Patches world" where
  "ex_world_keyed =
     fst (onKeyed (fst (onKeyed (fst (on ex_world ''users:updated'' 6))
                          ''users:updated'' (StrKey ''u1'') 7))
            ''users:updated'' (StrKey ''*'') 8)"

definition edit_u1 :: patch where
  "edit_u1 = \<lparr>op = Replace, path = [StrKey ''users'', StrKey ''u1'', StrKey ''name''],
              pvalue = Some (VStr ''Johnny'')\<rparr>"

definition edit_u2 :: patch where
  "edit_u2 = \<lparr>op = Replace, path = [StrKey ''users'', StrKey ''u2'', StrKey ''name''],
              pvalue = Some (VStr ''Janet'')\<rparr>"

definition edit_u1_age :: patch where
  "edit_u1_age = \<lparr>op = Add, path = [StrKey ''users'', StrKey ''u1'', StrKey ''age''],
                  pvalue = Some (VNum 30)\<rparr>"

definition edit_count :: patch where
  "edit_count = \<lparr>op = Replace, path = [StrKey ''count'', StrKey ''value''],
                 pvalue = Some (VNum 1)\<rparr>"

definition edit_extra :: patch where
  "edit_extra = \<lparr>op = Add, path = [StrKey ''extra''], pvalue = Some (VRef 2)\<rparr>"

definition edit_root :: patch where
  "edit_root = \<lparr>op = Replace, path = [], pvalue = Some VNull\<rparr>"

section \<open>The grouper and the emission loop\<close>

subsection \<open>Groups by first segment\<close>

lemma set_first_occurrences [simp]: "set (first_occurrences xs) = set xs"
  by (induction xs) auto

lemma distinct_first_occurrences [simp]: "distinct (first_occurrences xs)"
  by (induction xs) auto

lemma first_occurrences_append:
  "first_occurrences (xs @ ys) = first_occurrences xs @ filter (\<lambda>y. y \<notin> set xs) (first_occurrences ys)"
proof (induction xs)
  case Nil
  then show ?case by simp
next
  case (Cons x xs)
  have "filter (\<lambda>y. y \<noteq> x) (filter (\<lambda>y. y \<notin> set xs) (first_occurrences ys))
        = filter (\<lambda>y. y \<notin> set (x # xs)) (first_occurrences ys)"
    by (auto intro: filter_cong)
  with Cons show ?case by simp
qed

lemma first_occurrences_distinct: "distinct xs \<Longrightarrow> first_occurrences xs = xs"
  by (induction xs) (auto simp: filter_id_conv)

lemma first_occurrences_skip:
  "k \<in> set xs \<Longrightarrow> first_occurrences (xs @ k # ys) = first_occurrences (xs @ ys)"
  by (auto simp: first_occurrences_append intro: filter_cong)

lemma groupLoop_error: "(groupLoop ps acc = Inl e) = (\<exists>p\<in>set ps. path p = [])"
proof (induction ps arbitrary: acc)
  case Nil
  then show ?case by (cases acc) simp
next
  case (Cons p ps)
  then show ?case by (cases acc; cases e) (auto split: list.splits simp: Let_def)
qed

lemma map_fst_group_push:
  "map fst (group_push g k p) = (if k \<in> set (map fst g) then map fst g else map fst g @ [k])"
  by (induction g) force+

lemma map_of_group_push:
  "map_of (group_push g k p) =
     (map_of g)(k \<mapsto> (case map_of g k of None \<Rightarrow> [p] | Some x \<Rightarrow> x @ [p]))"
  by (induction g) (auto simp: fun_eq_iff)

lemma groupLoop_keys:
  "groupLoop ps (tp, al) = Inr (tp', al') \<Longrightarrow> distinct (map fst al) \<Longrightarrow>
     map fst al' = first_occurrences (map fst al @ List.map_filter firstSegment ps)"
proof (induction ps arbitrary: tp al)
  case Nil
  then show ?case by (simp add: first_occurrences_distinct List.map_filter_simps)
next
  case (Cons p ps)
  from Cons.prems(1) obtain k rest where pk: "path p = k # rest"
    by (cases "path p") auto
  let ?al1 = "group_push al k p"
  from Cons.prems(1) pk obtain tp1 where step: "groupLoop ps (tp1, ?al1) = Inr (tp', al')"
    by (auto simp: Let_def)
  have d1: "distinct (map fst ?al1)"
    using Cons.prems(2) by (simp add: map_fst_group_push)
  have fs: "List.map_filter firstSegment (p # ps) = k # List.map_filter firstSegment ps"
    by (simp add: List.map_filter_simps firstSegment_def pk)
  from Cons.IH [OF step d1]
  have "map fst al' = first_occurrences (map fst ?al1 @ List.map_filter firstSegment ps)" .
  also have "\<dots> = first_occurrences (map fst al @ k # List.map_filter firstSegment ps)"
    by (simp add: map_fst_group_push first_occurrences_skip)
  finally show ?case unfolding fs .
qed

lemma groupLoop_lookup:
  "groupLoop ps (tp, al) = Inr (tp', al') \<Longrightarrow>
     map_of al' F = (case map_of al F of
                       None \<Rightarrow> (if editsOf F ps = [] then None else Some (editsOf F ps))
                     | Some g \<Rightarrow> Some (g @ editsOf F ps))"
proof (induction ps arbitrary: tp al)
  case Nil
  then show ?case by (simp add: editsOf_def split: option.splits)
next
  case (Cons p ps)
  from Cons.prems(1) obtain k rest where pk: "path p = k # rest"
    by (cases "path p") auto
  let ?al1 = "group_push al k p"
  from Cons.prems(1) pk obtain tp1 where step: "groupLoop ps (tp1, ?al1) = Inr (tp', al')"
    by (auto simp: Let_def)
  show ?case
    unfolding Cons.IH [OF step]
    by (auto simp: map_of_group_push editsOf_def firstSegment_def pk split: option.splits)
qed

lemma distinct_keys_rebuild:
  "distinct (map fst g) \<Longrightarrow> map (\<lambda>k. (k, the (map_of g k))) (map fst g) = g"
proof (induction g)
  case Nil
  then show ?case by simp
next
  case (Cons x g)
  obtain a b where x: "x = (a, b)" by (cases x)
  from Cons.prems x have na: "a \<notin> fst ` set g" and d: "distinct (map fst g)" by auto
  have "map (\<lambda>k. (k, the (map_of ((a, b) # g) k))) (map fst g)
        = map (\<lambda>k. (k, the (map_of g k))) (map fst g)"
    using na by (intro map_cong) auto
  with Cons.IH [OF d] show ?case by (simp add: x)
qed

lemma groupPatchesByField_all:
  assumes "groupPatchesByField ps = Inr (tp, al)"
  shows "al = map (\<lambda>F. (F, editsOf F ps)) (fieldsOf ps)"
proof -
  from assms have g: "groupLoop ps ([], []) = Inr (tp, al)"
    by (simp add: groupPatchesByField_def)
  have keys: "map fst al = fieldsOf ps"
    using groupLoop_keys [OF g] by (simp add: fieldsOf_def)
  have look: "\<And>F. F \<in> set (fieldsOf ps) \<Longrightarrow> map_of al F = Some (editsOf F ps)"
  proof -
    fix F assume "F \<in> set (fieldsOf ps)"
    then have "editsOf F ps \<noteq> []"
      by (auto simp: fieldsOf_def editsOf_def List.map_filter_def filter_empty_conv)
    then show "map_of al F = Some (editsOf F ps)"
      using groupLoop_lookup [OF g, of F] by simp
  qed
  have "distinct (map fst al)" by (simp add: keys fieldsOf_def)
  from distinct_keys_rebuild [OF this, symmetric]
  have "al = map (\<lambda>k. (k, the (map_of al k))) (fieldsOf ps)" by (simp add: keys)
  also have "\<dots> = map (\<lambda>F. (F, editsOf F ps)) (fieldsOf ps)"
    by (rule map_cong) (auto simp: look)
  finally show ?thesis .
qed

subsection \<open>The second segments\<close>

lemma distinct_set_add: "distinct ks \<Longrightarrow> distinct (set_add ks k)"
  by (simp add: set_add_def)

lemma extractLoop_eq:
  "distinct ks \<Longrightarrow> extractLoop ps ks = first_occurrences (ks @ secondSegments ps)"
proof (induction ps arbitrary: ks)
  case Nil
  then show ?case by (simp add: secondSegments_def first_occurrences_distinct)
next
  case (Cons p ps)
  show ?case
  proof (cases "2 \<le> length (path p)")
    case True
    let ?k = "path p ! 1"
    have "extractLoop (p # ps) ks = extractLoop ps (set_add ks ?k)"
      using True by simp
    also have "\<dots> = first_occurrences (set_add ks ?k @ secondSegments ps)"
      by (rule Cons.IH) (rule distinct_set_add [OF Cons.prems])
    also have "\<dots> = first_occurrences (ks @ ?k # secondSegments ps)"
      by (simp add: set_add_def first_occurrences_skip)
    finally show ?thesis using True by (simp add: secondSegments_def)
  next
    case False
    then show ?thesis using Cons by (simp add: secondSegments_def)
  qed
qed

lemma extractSecondKeys_eq:
  "extractSecondKeysFromPatches ps = first_occurrences (secondSegments ps)"
  by (simp add: extractSecondKeysFromPatches_def extractLoop_eq)


subsection \<open>The calls of the emission loop\<close>

lemma is_Callback_deliver [simp]: "is_Callback (deliver w x)"
  by (cases x; cases "fst x") auto

lemma filter_deliver [simp]: "filter (\<lambda>c. \<not> is_Callback c) (map (deliver w) xs) = []"
  by (induction xs) auto

lemma emitKeyedLoop_calls:
  "filter (\<lambda>c. \<not> is_Callback c) (snd (emitKeyedLoop (deliver w) em ev ks g))
   = map (\<lambda>K. EmitKeyedCall ev K g) ks"
  by (induction ks arbitrary: em) (auto simp: split_beta)

lemma emitField_calls:
  "filter (\<lambda>c. \<not> is_Callback c) (snd (emitField (deliver w) em (F, g)))
   = EmitCall (eventName F) g #
     (if hasKeyedListeners (fst (emit em (eventName F) g)) (eventName F)
      then ExtractCall g # map (\<lambda>K. EmitKeyedCall (eventName F) K g) (first_occurrences (secondSegments g))
      else [])"
  using emitKeyedLoop_calls [of w "fst (emit em (eventName F) g)" "eventName F"
      "extractSecondKeysFromPatches g" g]
  by (auto simp: emitField_def extractSecondKeys_eq split_beta)


lemma filter_filter_calls:
  "filter P (filter (\<lambda>c. \<not> is_Callback c) xs) = filter (\<lambda>c. P c \<and> \<not> is_Callback c) xs"
  by (induction xs) auto

lemma emitField_plain:
  "filter is_EmitCall (snd (emitField (deliver w) em (F, g))) = [EmitCall (eventName F) g]"
proof -
  have "filter is_EmitCall (snd (emitField (deliver w) em (F, g)))
        = filter is_EmitCall (filter (\<lambda>c. \<not> is_Callback c) (snd (emitField (deliver w) em (F, g))))"
    unfolding filter_filter_calls by (rule filter_cong) (auto simp: call.disc_eq_case split: call.splits)
  also have "\<dots> = [EmitCall (eventName F) g]"
    unfolding emitField_calls by (auto simp: filter_empty_conv)
  finally show ?thesis .
qed

lemma emitLoop_plain:
  "filter is_EmitCall (snd (emitLoop (deliver w) em gs))
   = map (\<lambda>(F, g). EmitCall (eventName F) g) gs"
proof (induction gs arbitrary: em)
  case Nil
  then show ?case by simp
next
  case (Cons x gs)
  obtain F g where x: "x = (F, g)" by (cases x)
  show ?case
    using Cons.IH [of "fst (emitField (deliver w) em (F, g))"] emitField_plain [of w em F g]
    by (simp add: x split_beta)
qed
subsection \<open>The two outcomes of an update\<close>

lemma groupPatchesByField_error:
  "(groupPatchesByField ps = Inl ProtocolViolation) = (\<exists>p\<in>set ps. path p = [])"
  by (simp add: groupPatchesByField_def groupLoop_error)

lemma groupPatchesByField_ok:
  assumes "\<forall>p\<in>set ps. path p \<noteq> []"
  shows "\<exists>tp. groupPatchesByField ps = Inr (tp, map (\<lambda>F. (F, editsOf F ps)) (fieldsOf ps))"
proof (cases "groupPatchesByField ps")
  case (Inl e)
  then have "groupPatchesByField ps = Inl ProtocolViolation" by (cases e) simp
  with assms show ?thesis by (simp add: groupPatchesByField_error)
next
  case (Inr r)
  obtain tp al where "r = (tp, al)" by (cases r)
  with Inr groupPatchesByField_all [of ps tp al] show ?thesis by simp
qed

lemma update_ok:
  assumes "create s h (state s) mutate = (h1, newState, patches)"
      and "groupPatchesByField patches = Inr (tp, al)"
  shows "update mutate (h, s) =
           ((h1, s\<lparr>state := newState,
                   emitter := fst (emitLoop (deliver (h1, s\<lparr>state := newState\<rparr>)) (emitter s) al)\<rparr>),
            snd (emitLoop (deliver (h1, s\<lparr>state := newState\<rparr>)) (emitter s) al),
            Inr patches)"
  using assms by (simp add: split_beta Let_def)

lemma update_err:
  assumes "create s h (state s) mutate = (h1, newState, patches)"
      and "groupPatchesByField patches = Inl e"
  shows "update mutate (h, s) = ((h1, s\<lparr>state := newState\<rparr>), [], Inl e)"
  using assms by (simp add: Let_def)

lemma set_fieldsOf:
  "set (fieldsOf ps) = {F. \<exists>p\<in>set ps. firstSegment p = Some F}"
  by (force simp: fieldsOf_def List.map_filter_def)

lemma update_log_ok:
  assumes "create s h (state s) mutate = (h1, newState, patches)"
      and "\<forall>p\<in>set patches. path p \<noteq> []"
  shows "fst (snd (update mutate (h, s))) =
           snd (emitLoop (deliver (h1, s\<lparr>state := newState\<rparr>)) (emitter s)
                  (map (\<lambda>F. (F, editsOf F patches)) (fieldsOf patches)))"
proof -
  from groupPatchesByField_ok [OF assms(2)] obtain tp where
    "groupPatchesByField patches = Inr (tp, map (\<lambda>F. (F, editsOf F patches)) (fieldsOf patches))" ..
  from update_ok [OF assms(1) this] show ?thesis by simp
qed

lemma update_log_err:
  assumes "create s h (state s) mutate = (h1, newState, patches)"
      and "\<exists>p\<in>set patches. path p = []"
  shows "update mutate (h, s) = ((h1, s\<lparr>state := newState\<rparr>), [], Inl ProtocolViolation)"
  using assms(2) update_err [OF assms(1), of ProtocolViolation]
  by (simp add: groupPatchesByField_error)


subsection \<open>Evaluating the examples\<close>

lemmas ex_defs = ex_world_def ex_world_replacing_def createObservableStore_def new_ObservableStore_def
  createFromPatchRecorder_def reportEdits_def replaceState_def ex_heap_def createEmitter_def
  createSubscribeHandlers_def createKeyedSubscribeHandlers_def object_keys_def deref_def

lemmas edit_defs = edit_u1_def edit_u2_def edit_u1_age_def edit_count_def edit_root_def


lemmas em_defs = em_on_def em_once_def em_onKeyed_def em_onceKeyed_def add_plain_def add_keyed_def
  is_wildcard_def emit_def emitKeyed_def hasKeyedListeners_def keep_def emitField_def

section \<open>Plain events, errors and the returned edits\<close>




text \<open>
  Claim C3. The grouping stage raises the protocol violation exactly when some edit of
  the Producer has an empty path, and returns its groups exactly when none has; the
  update raises that error in the first case, whatever the other edits are.
\<close>
theorem empty_path_raises:
  assumes "create s h (state s) mutate = (h1, newState, patches)"
  shows "((groupPatchesByField patches = Inl ProtocolViolation) = (\<exists>p\<in>set patches. path p = []))
         \<and> ((\<exists>r. groupPatchesByField patches = Inr r) = (\<forall>p\<in>set patches. path p \<noteq> []))
         \<and> ((snd (snd (update mutate (h, s))) = Inl ProtocolViolation)
              = (\<exists>p\<in>set patches. path p = []))"
proof -
  have a: "(groupPatchesByField patches = Inl ProtocolViolation) = (\<exists>p\<in>set patches. path p = [])"
    by (rule groupPatchesByField_error)
  have b: "(\<exists>r. groupPatchesByField patches = Inr r) = (\<forall>p\<in>set patches. path p \<noteq> [])"
  proof
    assume "\<exists>r. groupPatchesByField patches = Inr r"
    then have "groupPatchesByField patches \<noteq> Inl ProtocolViolation" by auto
    with a show "\<forall>p\<in>set patches. path p \<noteq> []" by blast
  next
    assume "\<forall>p\<in>set patches. path p \<noteq> []"
    from groupPatchesByField_ok [OF this] show "\<exists>r. groupPatchesByField patches = Inr r" by blast
  qed
  have c: "(snd (snd (update mutate (h, s))) = Inl ProtocolViolation)
             = (\<exists>p\<in>set patches. path p = [])"
  proof (cases "\<exists>p\<in>set patches. path p = []")
    case True
    with update_log_err [OF assms True] show ?thesis by simp
  next
    case False
    then have "\<forall>p\<in>set patches. path p \<noteq> []" by blast
    from groupPatchesByField_ok [OF this] obtain tp al where
      "groupPatchesByField patches = Inr (tp, al)" by blast
    from update_ok [OF assms this] False show ?thesis by simp
  qed
  from a b c show ?thesis by blast
qed

theorem empty_path_raises_witness:
  "create (snd ex_world) ex_heap (state (snd ex_world)) [edit_count, edit_root]
     = (ex_heap, 0, [edit_count, edit_root])
   \<and> path edit_root = []
   \<and> groupPatchesByField [edit_count, edit_root] = Inl ProtocolViolation
   \<and> snd (snd (update [edit_count, edit_root] (ex_heap, snd ex_world))) = Inl ProtocolViolation
   \<and> path edit_count \<noteq> []
   \<and> groupPatchesByField [edit_count] = Inr ([(StrKey ''count'', [edit_count])],
                                              [(StrKey ''count'', [edit_count])])"
proof -
  have c: "create (snd ex_world) ex_heap (state (snd ex_world)) [edit_count, edit_root]
             = (ex_heap, 0, [edit_count, edit_root])"
    by (simp add: ex_defs)
  have e: "\<exists>p\<in>set [edit_count, edit_root]. path p = []"
    by (simp add: edit_defs)
  have g: "groupPatchesByField [edit_count] = Inr ([(StrKey ''count'', [edit_count])],
                                                  [(StrKey ''count'', [edit_count])])"
    by (simp add: groupPatchesByField_def edit_defs Let_def)
  from empty_path_raises [OF c] e c g show ?thesis
    by (simp add: edit_defs)
qed




text \<open>
  Claim C9. When the Producer's edit list has an edit with an empty path, the update
  ends with the protocol violation after the state has been replaced by the Producer's
  new state and before anything is emitted: nothing is called, while \<^verbatim>\<open>get\<close> and
  \<^verbatim>\<open>getState\<close> afterwards read the new state.
\<close>
theorem update_error_not_atomic:
  assumes "create s h (state s) mutate = (h1, newState, patches)"
      and "\<exists>p\<in>set patches. path p = []"
  shows "update mutate (h, s) = ((h1, s\<lparr>state := newState\<rparr>), [], Inl ProtocolViolation)
         \<and> get (fst (update mutate (h, s))) name = property (deref h1 newState) name
         \<and> deref (fst (getState (fst (update mutate (h, s))))) (snd (getState (fst (update mutate (h, s)))))
             = deref h1 newState"
  using update_log_err [OF assms]
  by (simp add: alloc_def deref_def)

theorem update_error_not_atomic_witness:
  "create (snd ex_world_replacing) ex_heap (state (snd ex_world_replacing)) [edit_count, edit_root]
     = (ex_heap @ [[(''count'', VRef 2)]], 5, [edit_count, edit_root])
   \<and> path edit_root = []
   \<and> get (ex_heap, snd ex_world_replacing) ''users'' = VRef 1
   \<and> fst (snd (update [edit_count, edit_root] (ex_heap, snd ex_world_replacing))) = []
   \<and> snd (snd (update [edit_count, edit_root] (ex_heap, snd ex_world_replacing)))
       = Inl ProtocolViolation
   \<and> get (fst (update [edit_count, edit_root] (ex_heap, snd ex_world_replacing))) ''users''
       = VUndefined
   \<and> get (fst (update [edit_count, edit_root] (ex_heap, snd ex_world_replacing))) ''count''
       = VRef 2"
proof -
  have c: "create (snd ex_world_replacing) ex_heap (state (snd ex_world_replacing))
             [edit_count, edit_root]
           = (ex_heap @ [[(''count'', VRef 2)]], 5, [edit_count, edit_root])"
    by (simp add: ex_defs)
  have e: "\<exists>p\<in>set [edit_count, edit_root]. path p = []"
    by (simp add: edit_defs)
  have g: "get (ex_heap, snd ex_world_replacing) ''users'' = VRef 1"
    by (simp add: ex_defs property_def)
  from update_error_not_atomic [OF c e] c g show ?thesis
    by (simp add: edit_defs ex_heap_def deref_def property_def)
qed

section \<open>Keyed emission\<close>

lemma filter_noncallback:
  assumes "\<And>c. P c \<Longrightarrow> \<not> is_Callback c"
  shows "filter P xs = filter P (filter (\<lambda>c. \<not> is_Callback c) xs)"
  using assms by (induction xs) auto

lemma emitField_keyed_calls:
  "filter is_EmitKeyedCall (snd (emitField (deliver w) em (F, g)))
   = (if hasKeyedListeners (fst (emit em (eventName F) g)) (eventName F)
      then map (\<lambda>K. EmitKeyedCall (eventName F) K g) (first_occurrences (secondSegments g))
      else [])"
proof -
  have "filter is_EmitKeyedCall (snd (emitField (deliver w) em (F, g)))
        = filter is_EmitKeyedCall
            (filter (\<lambda>c. \<not> is_Callback c) (snd (emitField (deliver w) em (F, g))))"
    by (rule filter_noncallback) (auto simp: call.disc_eq_case split: call.splits)
  also have "\<dots> = (if hasKeyedListeners (fst (emit em (eventName F) g)) (eventName F)
      then map (\<lambda>K. EmitKeyedCall (eventName F) K g) (first_occurrences (secondSegments g))
      else [])"
    unfolding emitField_calls by (simp add: filter_id_conv)
  finally show ?thesis .
qed


lemma hasKeyedListeners_emit [simp]:
  "hasKeyedListeners (fst (emit em ev g)) ev' = hasKeyedListeners em ev'"
  by (simp add: emit_def hasKeyedListeners_def)


lemma ex_world_keyed_create:
  "create (snd ex_world_keyed) ex_heap (state (snd ex_world_keyed)) edits = (ex_heap, 0, edits)"
  by (simp add: ex_world_keyed_def ex_defs em_defs split_beta)

lemma ex_group:
  "groupPatchesByField [edit_u1, edit_count, edit_u1_age, edit_u2]
     = Inr ([(StrKey ''count'', [edit_count])],
            [(StrKey ''users'', [edit_u1, edit_u1_age, edit_u2]), (StrKey ''count'', [edit_count])])"
  by (simp add: groupPatchesByField_def edit_defs Let_def)

lemma ex_keyed_log:
  "fst (snd (update [edit_u1, edit_count, edit_u1_age, edit_u2] (ex_heap, snd ex_world_keyed)))
   = [EmitCall ''users:updated'' [edit_u1, edit_u1_age, edit_u2],
      Callback 6 (ArgPatches [edit_u1, edit_u1_age, edit_u2]),
      ExtractCall [edit_u1, edit_u1_age, edit_u2],
      EmitKeyedCall ''users:updated'' (StrKey ''u1'') [edit_u1, edit_u1_age, edit_u2],
      Callback 7 (ArgPatches [edit_u1, edit_u1_age, edit_u2]),
      Callback 8 (ArgKeyPatches (StrKey ''u1'') [edit_u1, edit_u1_age, edit_u2]),
      EmitKeyedCall ''users:updated'' (StrKey ''u2'') [edit_u1, edit_u1_age, edit_u2],
      Callback 8 (ArgKeyPatches (StrKey ''u2'') [edit_u1, edit_u1_age, edit_u2]),
      EmitCall ''count:updated'' [edit_count]]"
proof -
  have x: "extractSecondKeysFromPatches [edit_u1, edit_u1_age, edit_u2] = [StrKey ''u1'', StrKey ''u2'']"
    by (simp add: extractSecondKeysFromPatches_def set_add_def edit_defs)
  show ?thesis
    unfolding update_ok [OF ex_world_keyed_create ex_group]
    by (simp add: ex_world_keyed_def ex_defs em_defs eventName_def x split_beta)
qed


section \<open>What listeners receive\<close>

lemma deliver_arg:
  "deliver w (l, a) = Callback c a' \<Longrightarrow> a' = a \<or> (\<exists>v. a' = ArgValue v)"
  by (cases l) auto

lemma emit_args: "(l, a) \<in> set (snd (emit em ev g)) \<Longrightarrow> a = ArgPatches g"
  by (auto simp: emit_def)

lemma emitKeyed_args:
  "(l, a) \<in> set (snd (emitKeyed em ev K g)) \<Longrightarrow> a = ArgPatches g \<or> a = ArgKeyPatches K g"
  by (auto simp: emitKeyed_def)

lemma emitKeyedLoop_callback_args:
  "Callback c a \<in> set (snd (emitKeyedLoop (deliver w) em ev ks g)) \<Longrightarrow>
     (\<exists>v. a = ArgValue v) \<or> a = ArgPatches g \<or> (\<exists>K. a = ArgKeyPatches K g)"
proof (induction ks arbitrary: em)
  case Nil
  then show ?case by simp
next
  case (Cons k ks)
  from Cons.prems consider
      (here) l b where "(l, b) \<in> set (snd (emitKeyed em ev k g))" "deliver w (l, b) = Callback c a"
    | (later) "Callback c a \<in> set (snd (emitKeyedLoop (deliver w) (fst (emitKeyed em ev k g)) ev ks g))"
    by (auto simp: split_beta)
  then show ?case
  proof cases
    case here
    with emitKeyed_args [OF here(1)] deliver_arg [OF here(2)] show ?thesis by auto
  next
    case later
    with Cons.IH show ?thesis by blast
  qed
qed

lemma emitField_callback_args:
  "Callback c a \<in> set (snd (emitField (deliver w) em (F, g))) \<Longrightarrow>
     (\<exists>v. a = ArgValue v) \<or> a = ArgPatches g \<or> (\<exists>K. a = ArgKeyPatches K g)"
proof -
  assume m: "Callback c a \<in> set (snd (emitField (deliver w) em (F, g)))"
  then consider
      (plain) l b where "(l, b) \<in> set (snd (emit em (eventName F) g))"
        "deliver w (l, b) = Callback c a"
    | (keyed) "Callback c a \<in> set (snd (emitKeyedLoop (deliver w) (fst (emit em (eventName F) g))
          (eventName F) (extractSecondKeysFromPatches g) g))"
    by (auto simp: emitField_def split_beta split: if_splits)
  then show ?thesis
  proof cases
    case plain
    with emit_args [OF plain(1)] deliver_arg [OF plain(2)] show ?thesis by auto
  next
    case keyed
    then show ?thesis by (rule emitKeyedLoop_callback_args)
  qed
qed

lemma emitLoop_callback_args:
  "Callback c a \<in> set (snd (emitLoop (deliver w) em gs)) \<Longrightarrow>
     (\<exists>v. a = ArgValue v)
     \<or> (\<exists>F g. (F, g) \<in> set gs \<and> (a = ArgPatches g \<or> (\<exists>K. a = ArgKeyPatches K g)))"
proof (induction gs arbitrary: em)
  case Nil
  then show ?case by simp
next
  case (Cons x gs)
  obtain F g where x: "x = (F, g)" by (cases x)
  from Cons.prems consider
      (here) "Callback c a \<in> set (snd (emitField (deliver w) em (F, g)))"
    | (later) "Callback c a \<in> set (snd (emitLoop (deliver w) (fst (emitField (deliver w) em (F, g))) gs))"
    by (auto simp: x split_beta)
  then show ?case
  proof cases
    case here
    from emitField_callback_args [OF here] show ?thesis by (auto simp: x)
  next
    case later
    from Cons.IH [OF later] show ?thesis by auto
  qed
qed

lemma emitLoop_EmitCall_mem:
  "(EmitCall ev g \<in> set (snd (emitLoop (deliver w) em gs)))
   = (\<exists>F. (F, g) \<in> set gs \<and> ev = eventName F)"
proof -
  have "(EmitCall ev g \<in> set (snd (emitLoop (deliver w) em gs)))
        = (EmitCall ev g \<in> set (filter is_EmitCall (snd (emitLoop (deliver w) em gs))))"
    by simp
  also have "\<dots> = (\<exists>F. (F, g) \<in> set gs \<and> ev = eventName F)"
    unfolding emitLoop_plain by force
  finally show ?thesis .
qed

lemma emitLoop_keyed_mem:
  "EmitKeyedCall ev K g \<in> set (snd (emitLoop (deliver w) em gs)) \<Longrightarrow>
     \<exists>F. (F, g) \<in> set gs \<and> ev = eventName F \<and> K \<in> set (secondSegments g)"
proof (induction gs arbitrary: em)
  case Nil
  then show ?case by simp
next
  case (Cons x gs)
  obtain F g' where x: "x = (F, g')" by (cases x)
  from Cons.prems consider
      (here) "EmitKeyedCall ev K g \<in> set (snd (emitField (deliver w) em (F, g')))"
    | (later) "EmitKeyedCall ev K g
         \<in> set (snd (emitLoop (deliver w) (fst (emitField (deliver w) em (F, g'))) gs))"
    by (auto simp: x split_beta)
  then show ?case
  proof cases
    case here
    then have "EmitKeyedCall ev K g
        \<in> set (filter is_EmitKeyedCall (snd (emitField (deliver w) em (F, g'))))"
      by simp
    then show ?thesis
      unfolding emitField_keyed_calls by (auto simp: x split: if_splits)
  next
    case later
    from Cons.IH [OF later] show ?thesis by auto
  qed
qed

lemma fields_groups_mem:
  "((F, g) \<in> set (map (\<lambda>F. (F, editsOf F ps)) (fieldsOf ps)))
   = (F \<in> set (fieldsOf ps) \<and> g = editsOf F ps)"
  by auto

text \<open>
  Claim C5. A plain event with a list of edits is emitted by an update exactly when no
  edit has an empty path and the list is, for a field \<^verbatim>\<open>F\<close> of the edit list, the
  edits of the Producer whose first segment is \<^verbatim>\<open>F\<close>, in the order produced, under the
  event name of \<^verbatim>\<open>F\<close>; and every edit list that a listener receives as its only
  argument is such a list.
\<close>
theorem plain_group_is_subsequence:
  assumes "create s h (state s) mutate = (h1, newState, patches)"
  shows "((EmitCall ev g \<in> set (fst (snd (update mutate (h, s)))))
          = ((\<forall>p\<in>set patches. path p \<noteq> [])
             \<and> (\<exists>F\<in>set (fieldsOf patches).
                   ev = eventName F \<and> g = filter (\<lambda>p. firstSegment p = Some F) patches)))
         \<and> (Callback c (ArgPatches g) \<in> set (fst (snd (update mutate (h, s))))
              \<longrightarrow> (\<exists>F\<in>set (fieldsOf patches).
                     g = filter (\<lambda>p. firstSegment p = Some F) patches))"
proof (cases "\<exists>p\<in>set patches. path p = []")
  case True
  with update_log_err [OF assms True] show ?thesis by auto
next
  case False
  then have ne: "\<forall>p\<in>set patches. path p \<noteq> []" by blast
  show ?thesis
    unfolding update_log_ok [OF assms ne] emitLoop_EmitCall_mem fields_groups_mem
    using ne emitLoop_callback_args [of c "ArgPatches g" "(h1, s\<lparr>state := newState\<rparr>)" "emitter s"
        "map (\<lambda>F. (F, editsOf F patches)) (fieldsOf patches)"]
    by (auto simp: editsOf_def)
qed

text \<open>
  Claim C4. Every keyed emission of an update carries the list that the plain event of
  the same name carried, which is all the edits of the Producer whose first segment is
  the field, whatever their second segment; and so does every call of a wildcard
  listener.
\<close>
theorem keyed_emission_full_group:
  assumes "create s h (state s) mutate = (h1, newState, patches)"
  shows "(EmitKeyedCall ev K g \<in> set (fst (snd (update mutate (h, s))))
            \<longrightarrow> EmitCall ev g \<in> set (fst (snd (update mutate (h, s))))
                \<and> (\<exists>F\<in>set (fieldsOf patches).
                      ev = eventName F \<and> g = filter (\<lambda>p. firstSegment p = Some F) patches))
         \<and> (Callback c (ArgKeyPatches K g) \<in> set (fst (snd (update mutate (h, s))))
            \<longrightarrow> (\<exists>F\<in>set (fieldsOf patches).
                   g = filter (\<lambda>p. firstSegment p = Some F) patches))"
proof (cases "\<exists>p\<in>set patches. path p = []")
  case True
  with update_log_err [OF assms True] show ?thesis by auto
next
  case False
  then have ne: "\<forall>p\<in>set patches. path p \<noteq> []" by blast
  show ?thesis
    unfolding update_log_ok [OF assms ne] emitLoop_EmitCall_mem
    using emitLoop_callback_args [of c "ArgKeyPatches K g" "(h1, s\<lparr>state := newState\<rparr>)" "emitter s"
        "map (\<lambda>F. (F, editsOf F patches)) (fieldsOf patches)"]
      emitLoop_keyed_mem [of ev K g "(h1, s\<lparr>state := newState\<rparr>)" "emitter s"
        "map (\<lambda>F. (F, editsOf F patches)) (fieldsOf patches)"]
    by (auto simp: editsOf_def)
qed

lemma ex_users_group:
  "filter (\<lambda>p. firstSegment p = Some (StrKey ''users'')) [edit_u1, edit_count, edit_u1_age, edit_u2]
   = [edit_u1, edit_u1_age, edit_u2]"
  by (simp add: firstSegment_def edit_defs)

theorem plain_group_is_subsequence_witness:
  "create (snd ex_world_keyed) ex_heap (state (snd ex_world_keyed))
       [edit_u1, edit_count, edit_u1_age, edit_u2]
     = (ex_heap, 0, [edit_u1, edit_count, edit_u1_age, edit_u2])
   \<and> path edit_u1 \<noteq> [] \<and> path edit_count \<noteq> [] \<and> path edit_u1_age \<noteq> [] \<and> path edit_u2 \<noteq> []
   \<and> StrKey ''users'' \<in> set (fieldsOf [edit_u1, edit_count, edit_u1_age, edit_u2])
   \<and> EmitCall ''users:updated'' [edit_u1, edit_u1_age, edit_u2]
       \<in> set (fst (snd (update [edit_u1, edit_count, edit_u1_age, edit_u2]
                           (ex_heap, snd ex_world_keyed))))
   \<and> Callback 6 (ArgPatches [edit_u1, edit_u1_age, edit_u2])
       \<in> set (fst (snd (update [edit_u1, edit_count, edit_u1_age, edit_u2]
                           (ex_heap, snd ex_world_keyed))))
   \<and> filter (\<lambda>p. firstSegment p = Some (StrKey ''users''))
        [edit_u1, edit_count, edit_u1_age, edit_u2] = [edit_u1, edit_u1_age, edit_u2]"
proof -
  have n: "path edit_u1 \<noteq> [] \<and> path edit_count \<noteq> [] \<and> path edit_u1_age \<noteq> []
           \<and> path edit_u2 \<noteq> []"
    by (simp add: edit_defs)
  have f: "StrKey ''users'' \<in> set (fieldsOf [edit_u1, edit_count, edit_u1_age, edit_u2])"
    by (simp add: set_fieldsOf firstSegment_def edit_defs)
  note t = plain_group_is_subsequence [where ev = "''users:updated''"
      and g = "[edit_u1, edit_u1_age, edit_u2]" and c = 6 and h = ex_heap,
      OF ex_world_keyed_create [of "[edit_u1, edit_count, edit_u1_age, edit_u2]"]]
  from t n f ex_world_keyed_create ex_users_group show ?thesis
    unfolding ex_keyed_log by simp
qed

theorem keyed_emission_full_group_witness:
  "create (snd ex_world_keyed) ex_heap (state (snd ex_world_keyed))
       [edit_u1, edit_count, edit_u1_age, edit_u2]
     = (ex_heap, 0, [edit_u1, edit_count, edit_u1_age, edit_u2])
   \<and> EmitKeyedCall ''users:updated'' (StrKey ''u1'') [edit_u1, edit_u1_age, edit_u2]
       \<in> set (fst (snd (update [edit_u1, edit_count, edit_u1_age, edit_u2]
                           (ex_heap, snd ex_world_keyed))))
   \<and> Callback 8 (ArgKeyPatches (StrKey ''u1'') [edit_u1, edit_u1_age, edit_u2])
       \<in> set (fst (snd (update [edit_u1, edit_count, edit_u1_age, edit_u2]
                           (ex_heap, snd ex_world_keyed))))
   \<and> EmitCall ''users:updated'' [edit_u1, edit_u1_age, edit_u2]
       \<in> set (fst (snd (update [edit_u1, edit_count, edit_u1_age, edit_u2]
                           (ex_heap, snd ex_world_keyed))))
   \<and> StrKey ''users'' \<in> set (fieldsOf [edit_u1, edit_count, edit_u1_age, edit_u2])
   \<and> filter (\<lambda>p. firstSegment p = Some (StrKey ''users''))
        [edit_u1, edit_count, edit_u1_age, edit_u2] = [edit_u1, edit_u1_age, edit_u2]
   \<and> path edit_u2 ! 1 \<noteq> StrKey ''u1''"
proof -
  have f: "StrKey ''users'' \<in> set (fieldsOf [edit_u1, edit_count, edit_u1_age, edit_u2])"
    by (simp add: set_fieldsOf firstSegment_def edit_defs)
  have d: "path edit_u2 ! 1 \<noteq> StrKey ''u1''"
    by (simp add: edit_defs)
  note t = keyed_emission_full_group [where ev = "''users:updated''" and K = "StrKey ''u1''"
      and g = "[edit_u1, edit_u1_age, edit_u2]" and c = 8 and h = ex_heap,
      OF ex_world_keyed_create [of "[edit_u1, edit_count, edit_u1_age, edit_u2]"]]
  from t f d ex_world_keyed_create ex_users_group show ?thesis
    unfolding ex_keyed_log by simp
qed

section \<open>The subscription maps\<close>

lemma update_world:
  "\<exists>em. fst (update mutate (h, s))
     = (fst (create s h (state s) mutate),
        s\<lparr>state := fst (snd (create s h (state s) mutate)), emitter := em\<rparr>)"
proof -
  obtain h1 newState patches where c: "create s h (state s) mutate = (h1, newState, patches)"
    by (cases "create s h (state s) mutate") auto
  show ?thesis
  proof (cases "groupPatchesByField patches")
    case (Inl e)
    have "s\<lparr>state := newState\<rparr> = s\<lparr>state := newState, emitter := emitter s\<rparr>" by simp
    with update_err [OF c Inl] c show ?thesis by (metis fst_conv snd_conv)
  next
    case (Inr r)
    obtain tp al where "r = (tp, al)" by (cases r)
    with Inr update_ok [OF c] c show ?thesis by (metis fst_conv snd_conv)
  qed
qed

lemma call_subscribe_handler_fields:
  "subscriptions (snd (fst (call_subscribe_handler hdl cb w))) = subscriptions (snd w)
   \<and> keyedSubscriptions (snd (fst (call_subscribe_handler hdl cb w))) = keyedSubscriptions (snd w)
   \<and> create (snd (fst (call_subscribe_handler hdl cb w))) = create (snd w)
   \<and> state (snd (fst (call_subscribe_handler hdl cb w))) = state (snd w)
   \<and> fst (fst (call_subscribe_handler hdl cb w)) = fst w"
  by (cases hdl; cases w) (simp add: split_beta)

lemma call_keyed_subscribe_handler_fields:
  "subscriptions (snd (fst (call_keyed_subscribe_handler hdl k cb w))) = subscriptions (snd w)
   \<and> keyedSubscriptions (snd (fst (call_keyed_subscribe_handler hdl k cb w)))
       = keyedSubscriptions (snd w)
   \<and> create (snd (fst (call_keyed_subscribe_handler hdl k cb w))) = create (snd w)
   \<and> state (snd (fst (call_keyed_subscribe_handler hdl k cb w))) = state (snd w)
   \<and> fst (fst (call_keyed_subscribe_handler hdl k cb w)) = fst w"
  by (cases hdl; cases w) (simp add: split_beta)

lemma exec_fields:
  "subscriptions (snd (exec x w)) = subscriptions (snd w)
   \<and> keyedSubscriptions (snd (exec x w)) = keyedSubscriptions (snd w)
   \<and> create (snd (exec x w)) = create (snd w)"
proof -
  obtain h s where w: "w = (h, s)" by (cases w)
  show ?thesis
  proof (cases x)
    case (Update m)
    from update_world [of m h s] obtain em where
      "fst (update m (h, s)) = (fst (create s h (state s) m),
         s\<lparr>state := fst (snd (create s h (state s) m)), emitter := em\<rparr>)" ..
    then show ?thesis unfolding Update w by simp
  next
    case (Subscribe name cb)
    show ?thesis
    proof (cases "map_of (subscriptions s) name")
      case None
      then show ?thesis unfolding Subscribe w by simp
    next
      case (Some hdl)
      with call_subscribe_handler_fields [of hdl cb "(h, s)"] show ?thesis
        unfolding Subscribe w by simp
    qed
  next
    case (KeyedSubscribe name k cb)
    show ?thesis
    proof (cases "map_of (keyedSubscriptions s) name")
      case None
      then show ?thesis unfolding KeyedSubscribe w by simp
    next
      case (Some hdl)
      with call_keyed_subscribe_handler_fields [of hdl k cb "(h, s)"] show ?thesis
        unfolding KeyedSubscribe w by simp
    qed
  qed (simp_all add: w split_beta)
qed

lemma execs_fields:
  "subscriptions (snd (execs xs w)) = subscriptions (snd w)
   \<and> keyedSubscriptions (snd (execs xs w)) = keyedSubscriptions (snd w)
   \<and> create (snd (execs xs w)) = create (snd w)"
  by (induction xs arbitrary: w) (simp_all add: exec_fields)

lemma map_of_assign_prop: "map_of (assign_prop xs k v) = (map_of xs)(k \<mapsto> v)"
  by (induction xs k v rule: assign_prop.induct) (auto simp: fun_eq_iff)

lemma map_of_handlers:
  "map_of (foldl (\<lambda>subs k. assign_prop subs k (H k)) acc ks) name
   = (if name \<in> set ks then Some (H name) else map_of acc name)"
  by (induction ks arbitrary: acc) (auto simp: map_of_assign_prop)

lemma subscription_fields:
  "subscriptions (snd (execs ops (createObservableStore recordPatches h st options)))
     = createSubscribeHandlers h st
   \<and> keyedSubscriptions (snd (execs ops (createObservableStore recordPatches h st options)))
     = createKeyedSubscribeHandlers h st"
  using execs_fields [of ops "createObservableStore recordPatches h st options"]
  by (simp add: createObservableStore_def new_ObservableStore_def)

text \<open>
  Claim C10. No sequence of public operations changes the two subscription maps, on any
  store. On a store made by \<^verbatim>\<open>createObservableStore\<close> they stay what the constructor
  built: one handler per key of the initial state, the closure over that key, and nothing
  under any other name, so that a field which a later update adds to the state has no
  handler to call.
\<close>
theorem subscription_maps_fixed:
  "subscriptions (snd (execs ops w)) = subscriptions (snd w)
   \<and> keyedSubscriptions (snd (execs ops w)) = keyedSubscriptions (snd w)
   \<and> subscriptions (snd (execs ops (createObservableStore recordPatches h st options)))
       = createSubscribeHandlers h st
   \<and> keyedSubscriptions (snd (execs ops (createObservableStore recordPatches h st options)))
       = createKeyedSubscribeHandlers h st
   \<and> map_of (createSubscribeHandlers h st) name
       = (if name \<in> set (object_keys (deref h st)) then Some (SubscribeHandler name) else None)
   \<and> map_of (createKeyedSubscribeHandlers h st) name
       = (if name \<in> set (object_keys (deref h st)) then Some (KeyedSubscribeHandler name)
          else None)
   \<and> (name \<notin> set (object_keys (deref h st))
        \<longrightarrow> subscribe name cb (execs ops (createObservableStore recordPatches h st options)) = None
          \<and> keyedSubscribe name k cb
               (execs ops (createObservableStore recordPatches h st options)) = None)"
proof -
  let ?w0 = "createObservableStore recordPatches h st options"
  have s0: "subscriptions (snd ?w0) = createSubscribeHandlers h st"
    and k0: "keyedSubscriptions (snd ?w0) = createKeyedSubscribeHandlers h st"
    by (simp_all add: createObservableStore_def new_ObservableStore_def)
  have m1: "map_of (createSubscribeHandlers h st) name
       = (if name \<in> set (object_keys (deref h st)) then Some (SubscribeHandler name) else None)"
    by (simp add: createSubscribeHandlers_def map_of_handlers)
  have m2: "map_of (createKeyedSubscribeHandlers h st) name
       = (if name \<in> set (object_keys (deref h st)) then Some (KeyedSubscribeHandler name)
          else None)"
    by (simp add: createKeyedSubscribeHandlers_def map_of_handlers)
  have s1: "subscriptions (snd (execs ops ?w0)) = createSubscribeHandlers h st"
    and k1: "keyedSubscriptions (snd (execs ops ?w0)) = createKeyedSubscribeHandlers h st"
    using execs_fields [of ops ?w0] s0 k0 by simp_all
  have none: "name \<notin> set (object_keys (deref h st))
        \<longrightarrow> subscribe name cb (execs ops ?w0) = None
          \<and> keyedSubscribe name k cb (execs ops ?w0) = None"
  proof
    assume n: "name \<notin> set (object_keys (deref h st))"
    obtain h' s' where w: "execs ops ?w0 = (h', s')" by (cases "execs ops ?w0")
    from s1 k1 w have "subscriptions s' = createSubscribeHandlers h st"
      "keyedSubscriptions s' = createKeyedSubscribeHandlers h st" by simp_all
    with n m1 m2 show "subscribe name cb (execs ops ?w0) = None
          \<and> keyedSubscribe name k cb (execs ops ?w0) = None"
      unfolding w by simp
  qed
  from execs_fields [of ops w] s1 k1 m1 m2 none show ?thesis by blast
qed

theorem subscription_maps_fixed_witness:
  "ex_world_adding = createObservableStore reportEdits ex_heap 0
                       (Some \<lparr>createFunction = Some addField\<rparr>)
   \<and> ''extra'' \<notin> set (object_keys (deref ex_heap 0))
   \<and> get ex_world_adding ''extra'' = VUndefined
   \<and> get (execs [Update [edit_extra], On ''extra:updated'' 9] ex_world_adding) ''extra'' = VRef 2
   \<and> subscribe ''extra'' 9 (execs [Update [edit_extra], On ''extra:updated'' 9] ex_world_adding)
       = None
   \<and> keyedSubscribe ''extra'' (StrKey ''a'') 9
        (execs [Update [edit_extra], On ''extra:updated'' 9] ex_world_adding) = None
   \<and> map fst (subscriptions
                 (snd (execs [Update [edit_extra], On ''extra:updated'' 9] ex_world_adding)))
       = [''users'', ''count'']"
proof -
  have n: "''extra'' \<notin> set (object_keys (deref ex_heap 0))"
    by (simp add: ex_defs)
  have g0: "get ex_world_adding ''extra'' = VUndefined"
    by (simp add: ex_world_adding_def ex_defs property_def)
  have g1: "get (execs [Update [edit_extra], On ''extra:updated'' 9] ex_world_adding) ''extra''
              = VRef 2"
    by (simp add: ex_world_adding_def ex_defs addField_def assign_slot_def property_def
        groupPatchesByField_def edit_extra_def em_defs eventName_def Let_def split_beta)
  have c: "createSubscribeHandlers ex_heap 0
             = [(''users'', SubscribeHandler ''users''), (''count'', SubscribeHandler ''count'')]"
    by (simp add: ex_defs)
  note t = subscription_maps_fixed [where ops = "[Update [edit_extra], On ''extra:updated'' 9]"
      and recordPatches = reportEdits and h = ex_heap and st = 0
      and options = "Some \<lparr>createFunction = Some addField\<rparr>" and name = "''extra''"
      and cb = 9 and k = "StrKey ''a''" and w = ex_world_adding]
  from t n g0 g1 c show ?thesis
    by (simp add: ex_world_adding_def createObservableStore_def new_ObservableStore_def)
qed

section \<open>The copy of the state\<close>

lemma exec_valid:
  assumes "valid_world w" and "wf_create (create (snd w))"
  shows "valid_world (exec x w)"
proof -
  obtain h s where w: "w = (h, s)" by (cases w)
  from assms have v: "state s < length h" and wf: "wf_create (create s)"
    by (simp_all add: valid_world_def w)
  show ?thesis
  proof (cases x)
    case (Update m)
    from update_world [of m h s] obtain em where
      u: "fst (update m (h, s)) = (fst (create s h (state s) m),
         s\<lparr>state := fst (snd (create s h (state s) m)), emitter := em\<rparr>)" ..
    from wf v have "fst (snd (create s h (state s) m)) < length (fst (create s h (state s) m))"
      unfolding wf_create_def by (auto simp: split_beta)
    with u show ?thesis unfolding Update w by (simp add: valid_world_def)
  next
    case GetState
    with v show ?thesis by (simp add: w valid_world_def alloc_def)
  next
    case (Subscribe name cb)
    show ?thesis
    proof (cases "map_of (subscriptions s) name")
      case None
      with v show ?thesis unfolding Subscribe w by (simp add: valid_world_def)
    next
      case (Some hdl)
      with call_subscribe_handler_fields [of hdl cb "(h, s)"] v show ?thesis
        unfolding Subscribe w by (simp add: valid_world_def)
    qed
  next
    case (KeyedSubscribe name k cb)
    show ?thesis
    proof (cases "map_of (keyedSubscriptions s) name")
      case None
      with v show ?thesis unfolding KeyedSubscribe w by (simp add: valid_world_def)
    next
      case (Some hdl)
      with call_keyed_subscribe_handler_fields [of hdl k cb "(h, s)"] v show ?thesis
        unfolding KeyedSubscribe w by (simp add: valid_world_def)
    qed
  qed (use v in \<open>simp_all add: w valid_world_def split_beta\<close>)
qed

lemma execs_valid:
  "valid_world w \<Longrightarrow> wf_create (create (snd w)) \<Longrightarrow> valid_world (execs xs w)"
proof (induction xs arbitrary: w)
  case Nil
  then show ?case by simp
next
  case (Cons x xs)
  have "valid_world (exec x w)" using Cons.prems by (rule exec_valid)
  moreover have "wf_create (create (snd (exec x w)))"
    using Cons.prems(2) by (simp add: exec_fields)
  ultimately show ?case using Cons.IH by simp
qed

lemma property_assign_prop: "property (assign_prop ob name v) name = v"
  by (simp add: property_def map_of_assign_prop)

text \<open>
  Claim C6. After any sequence of public operations, updates among them, on a store whose
  state is an object of the heap and whose Producer returns objects of the heap,
  \<^verbatim>\<open>getState\<close> returns a new object: its address is fresh and is not the state's, the
  objects already there are untouched, and it has the properties of the state with the
  same values, references included, so that \<^verbatim>\<open>get\<close> of a field is that field's slot
  of the copy. Assigning to a slot of the copy changes the copy and leaves the state, and
  what \<^verbatim>\<open>get\<close> reads, as they were.
\<close>
theorem getState_shallow_copy:
  assumes "valid_world w0" and "wf_create (create (snd w0))"
  shows "let w = execs ops w0; h' = fst (getState w); copy = snd (getState w)
         in copy = length (fst w) \<and> copy \<noteq> state (snd w) \<and> length h' = Suc (length (fst w))
            \<and> (\<forall>a<length (fst w). h' ! a = fst w ! a)
            \<and> deref h' copy = deref (fst w) (state (snd w))
            \<and> get w f = property (deref h' copy) f
            \<and> property (deref (assign_slot h' copy name v) copy) name = v
            \<and> deref (assign_slot h' copy name v) (state (snd w)) = deref (fst w) (state (snd w))
            \<and> get (assign_slot h' copy name v, snd w) f = get w f"
proof -
  obtain h s where w: "execs ops w0 = (h, s)" by (cases "execs ops w0")
  from execs_valid [OF assms, of ops] have v: "state s < length h"
    by (simp add: w valid_world_def)
  show ?thesis
    unfolding Let_def w using v
    by (simp add: alloc_def deref_def assign_slot_def nth_append property_assign_prop)
qed

lemma ex_replacing_run:
  "fst (execs [Update [edit_count]] ex_world_replacing) = ex_heap @ [[(''count'', VRef 2)]]
   \<and> state (snd (execs [Update [edit_count]] ex_world_replacing)) = 5"
  by (simp add: ex_defs groupPatchesByField_def edit_defs em_defs eventName_def Let_def split_beta)

theorem getState_shallow_copy_witness:
  "valid_world ex_world_replacing
   \<and> wf_create (create (snd ex_world_replacing))
   \<and> state (snd (execs [Update [edit_count]] ex_world_replacing)) = 5
   \<and> snd (getState (execs [Update [edit_count]] ex_world_replacing)) = 6
   \<and> get (execs [Update [edit_count]] ex_world_replacing) ''count'' = VRef 2
   \<and> property (deref (fst (getState (execs [Update [edit_count]] ex_world_replacing))) 6) ''count''
       = VRef 2
   \<and> property (deref (assign_slot (fst (getState (execs [Update [edit_count]] ex_world_replacing)))
                         6 ''count'' VNull) 6) ''count'' = VNull
   \<and> get (assign_slot (fst (getState (execs [Update [edit_count]] ex_world_replacing)))
             6 ''count'' VNull,
           snd (execs [Update [edit_count]] ex_world_replacing)) ''count'' = VRef 2"
proof -
  have v: "valid_world ex_world_replacing"
    by (simp add: valid_world_def ex_defs)
  have c: "wf_create (create (snd ex_world_replacing))"
    by (simp add: wf_create_def ex_defs)
  obtain s where w: "execs [Update [edit_count]] ex_world_replacing
                        = (ex_heap @ [[(''count'', VRef 2)]], s)"
    and st: "state s = 5"
    using ex_replacing_run by (cases "execs [Update [edit_count]] ex_world_replacing") auto
  note t = getState_shallow_copy [OF v c, where ops = "[Update [edit_count]]"
      and f = "''count''" and name = "''count''" and v = VNull]
  from t v c st show ?thesis
    unfolding w Let_def
    by (simp add: alloc_def ex_heap_def deref_def property_def assign_slot_def nth_append)
qed

section \<open>Value subscriptions\<close>

lemma emit_extends:
  assumes "extends r ev em em'" and "\<not> reg_once r"
  shows "extends r ev (fst (emit em e g)) (fst (emit em' e g))"
    and "snd (emit em' e g)
         = snd (emit em e g) @ (if e = ev then [(reg_cb r, ArgPatches g)] else [])"
  using assms by (auto simp: extends_def emit_def keep_def fun_eq_iff)

lemma emitKeyed_extends:
  assumes "extends r ev em em'"
  shows "extends r ev (fst (emitKeyed em e K g)) (fst (emitKeyed em' e K g))"
    and "snd (emitKeyed em' e K g) = snd (emitKeyed em e K g)"
  using assms by (auto simp: extends_def emitKeyed_def)

lemma emitKeyedLoop_extends:
  assumes "extends r ev em em'"
  shows "extends r ev (fst (emitKeyedLoop run em e ks g)) (fst (emitKeyedLoop run em' e ks g))
         \<and> snd (emitKeyedLoop run em' e ks g) = snd (emitKeyedLoop run em e ks g)"
  using assms
proof (induction ks arbitrary: em em')
  case Nil
  then show ?case by simp
next
  case (Cons k ks)
  from emitKeyed_extends [OF Cons.prems, of e k g] Cons.IH [OF emitKeyed_extends(1) [OF Cons.prems]]
  show ?case by (simp add: split_beta)
qed

lemma hasKeyedListeners_extends:
  "extends r ev em em' \<Longrightarrow> hasKeyedListeners em' e = hasKeyedListeners em e"
  by (simp add: extends_def hasKeyedListeners_def)

lemma emitField_extends:
  assumes "extends r ev em em'" and "\<not> reg_once r"
  shows "extends r ev (fst (emitField run em (F, g))) (fst (emitField run em' (F, g)))
         \<and> (\<forall>x. count_list (snd (emitField run em' (F, g))) x
                = count_list (snd (emitField run em (F, g))) x
                  + (if eventName F = ev \<and> x = run (reg_cb r, ArgPatches g) then 1 else 0))"
proof -
  let ?e = "eventName F"
  note e1 = emit_extends [OF assms, of ?e g]
  note k1 = emitKeyedLoop_extends [OF e1(1), of run ?e "extractSecondKeysFromPatches g" g]
  have hk: "hasKeyedListeners (fst (emit em' ?e g)) ?e = hasKeyedListeners (fst (emit em ?e g)) ?e"
    using e1(1) by (rule hasKeyedListeners_extends)
  show ?thesis
    using e1 k1 hk by (simp add: emitField_def split_beta)
qed

lemma emitLoop_extends:
  assumes "extends r ev em em'" and "\<not> reg_once r"
      and "\<And>g. run (reg_cb r, ArgPatches g) = y"
  shows "extends r ev (fst (emitLoop run em gs)) (fst (emitLoop run em' gs))
         \<and> (\<forall>x. count_list (snd (emitLoop run em' gs)) x
                = count_list (snd (emitLoop run em gs)) x
                  + (if x = y then length (filter (\<lambda>(F, g). eventName F = ev) gs) else 0))"
  using assms(1)
proof (induction gs arbitrary: em em')
  case Nil
  then show ?case by simp
next
  case (Cons a gs)
  obtain F g where a: "a = (F, g)" by (cases a)
  note f = emitField_extends [OF Cons.prems assms(2), of run F g]
  note l = Cons.IH [OF conjunct1 [OF f]]
  show ?case
    using f l by (simp add: a split_beta assms(3))
qed

lemma deliver_state_cong:
  "state s' = state s \<Longrightarrow> deliver (h, s') = deliver (h, s)"
proof
  fix x :: "listener \<times> cb_arg"
  assume "state s' = state s"
  then show "deliver (h, s') x = deliver (h, s) x"
    by (cases x; cases "fst x") auto
qed

lemma emitLoop_emissions:
  "filter (is_emission_of ev) (snd (emitLoop (deliver w) em gs))
   = map (\<lambda>(F, g). EmitCall (eventName F) g) (filter (\<lambda>(F, g). eventName F = ev) gs)"
proof -
  have "filter (is_emission_of ev) (snd (emitLoop (deliver w) em gs))
        = filter (is_emission_of ev) (filter is_EmitCall (snd (emitLoop (deliver w) em gs)))"
    by (simp, rule filter_cong) (auto elim: is_emission_of.elims)
  also have "\<dots> = map (\<lambda>(F, g). EmitCall (eventName F) g) (filter (\<lambda>(F, g). eventName F = ev) gs)"
    unfolding emitLoop_plain by (induction gs) auto
  finally show ?thesis .
qed

lemma update_related:
  assumes "related r ev w w'" and "\<not> reg_once r" and "reg_cb r = ValueCb f cb"
  shows "related r ev (fst (update m w)) (fst (update m w'))
         \<and> snd (snd (update m w')) = snd (snd (update m w))
         \<and> (\<forall>x. count_list (fst (snd (update m w'))) x
                = count_list (fst (snd (update m w))) x
                  + (if x = Callback cb (ArgValue (get (fst (update m w')) f))
                     then emissions_of ev (fst (snd (update m w'))) else 0))"
proof -
  obtain h s where w: "w = (h, s)" by (cases w)
  obtain h' s' where w': "w' = (h', s')" by (cases w')
  from assms(1) have hh: "h' = h" and st: "state s' = state s" and cr: "create s' = create s"
    and ex: "extends r ev (emitter s) (emitter s')"
    by (simp_all add: related_def w w')
  obtain h1 newState patches where c: "create s h (state s) m = (h1, newState, patches)"
    by (cases "create s h (state s) m") auto
  then have c': "create s' h (state s') m = (h1, newState, patches)"
    by (simp add: st cr)
  show ?thesis
  proof (cases "groupPatchesByField patches")
    case (Inl e)
    from update_err [OF c Inl] update_err [OF c' Inl] ex st cr show ?thesis
      by (simp add: w w' hh related_def emissions_of_def)
  next
    case (Inr p)
    obtain tp al where p: "p = (tp, al)" by (cases p)
    let ?run = "deliver (h1, s\<lparr>state := newState\<rparr>)"
    have run': "deliver (h1, s'\<lparr>state := newState\<rparr>) = ?run"
      by (rule deliver_state_cong) simp
    have y: "\<And>g. ?run (reg_cb r, ArgPatches g)
               = Callback cb (ArgValue (property (deref h1 newState) f))"
      by (simp add: assms(3))
    note u = update_ok [OF c Inr [unfolded p]]
    note u' = update_ok [OF c' Inr [unfolded p], unfolded run']
    note l = emitLoop_extends [OF ex assms(2), of ?run, OF y, of al]
    have em: "emissions_of ev (snd (emitLoop ?run (emitter s') al))
                = length (filter (\<lambda>(F, g). eventName F = ev) al)"
      by (simp add: emissions_of_def emitLoop_emissions)
    show ?thesis
      unfolding w w' hh u u' using l em st cr
      by (simp add: related_def)
  qed
qed

lemma updates_related:
  assumes "related r ev w w'" and "\<not> reg_once r" and "reg_cb r = ValueCb f cb"
  shows "related r ev (execs (map Update ms) w) (execs (map Update ms) w')"
  using assms(1)
proof (induction ms arbitrary: w w')
  case Nil
  then show ?case by simp
next
  case (Cons m ms)
  from update_related [OF Cons.prems assms(2,3), of m]
  have "related r ev (fst (update m w)) (fst (update m w'))" by blast
  from Cons.IH [OF this] show ?case by simp
qed

lemma subscribe_related:
  assumes "map_of (subscriptions s) f = Some (SubscribeHandler f)"
  shows "subscribe f cb (h, s)
           = Some ((h, s\<lparr>emitter := fst (em_on (emitter s) (eventName (StrKey f)) (ValueCb f cb))\<rparr>),
                   [Callback cb (ArgValue (get (h, s) f))],
                   snd (em_on (emitter s) (eventName (StrKey f)) (ValueCb f cb)))"
    and "related \<lparr>reg_id = next_id (emitter s), reg_cb = ValueCb f cb, reg_once = False\<rparr>
           (eventName (StrKey f)) (h, s)
           (h, s\<lparr>emitter := fst (em_on (emitter s) (eventName (StrKey f)) (ValueCb f cb))\<rparr>)"
  using assms by (simp_all add: split_beta related_def extends_def em_on_def add_plain_def)

text \<open>
  Claim C7. On a store made by \<^verbatim>\<open>createObservableStore\<close>, after any public
  operations, the handler \<^verbatim>\<open>subscriptions[f]\<close> of a field \<^verbatim>\<open>f\<close> of the initial state,
  called with a callback, calls the callback once, with \<^verbatim>\<open>get(f)\<close>, registers a plain
  listener for the event of \<^verbatim>\<open>f\<close> with \<^verbatim>\<open>on\<close>, changing nothing else, and returns
  what \<^verbatim>\<open>on\<close> returned. In every later update, after any number of updates in between,
  the store with the subscription does what the store without it does and, in addition,
  calls the callback once for each emission of the event of \<^verbatim>\<open>f\<close>, with the value that
  \<^verbatim>\<open>get(f)\<close> has in that update; no other call is added.
\<close>
theorem value_subscription:
  assumes "f \<in> set (object_keys (deref h0 st0))"
      and "w = execs ops (createObservableStore recordPatches h0 st0 options)"
  shows "\<exists>w' u. subscribe f cb w = Some (w', [Callback cb (ArgValue (get w f))], u)
           \<and> fst w' = fst w \<and> state (snd w') = state (snd w)
           \<and> (emitter (snd w'), u) = em_on (emitter (snd w)) (eventName (StrKey f)) (ValueCb f cb)
           \<and> (\<forall>ms m x.
                 count_list (fst (snd (update m (execs (map Update ms) w')))) x
                 = count_list (fst (snd (update m (execs (map Update ms) w)))) x
                   + (if x = Callback cb
                              (ArgValue (get (fst (update m (execs (map Update ms) w'))) f))
                      then emissions_of (eventName (StrKey f))
                             (fst (snd (update m (execs (map Update ms) w'))))
                      else 0))"
proof -
  obtain h s where w: "w = (h, s)" by (cases w)
  have "subscriptions s = createSubscribeHandlers h0 st0"
    using subscription_fields [of ops recordPatches h0 st0 options] assms(2) w
    by (metis snd_conv)
  with assms(1) have m: "map_of (subscriptions s) f = Some (SubscribeHandler f)"
    by (simp add: createSubscribeHandlers_def map_of_handlers)
  let ?ev = "eventName (StrKey f)"
  let ?r = "\<lparr>reg_id = next_id (emitter s), reg_cb = ValueCb f cb, reg_once = False\<rparr>"
  let ?w' = "(h, s\<lparr>emitter := fst (em_on (emitter s) ?ev (ValueCb f cb))\<rparr>)"
  let ?u = "snd (em_on (emitter s) ?ev (ValueCb f cb))"
  note sub = subscribe_related [OF m, of cb h]
  have cnt: "\<forall>ms m x.
                 count_list (fst (snd (update m (execs (map Update ms) ?w')))) x
                 = count_list (fst (snd (update m (execs (map Update ms) w)))) x
                   + (if x = Callback cb
                              (ArgValue (get (fst (update m (execs (map Update ms) ?w'))) f))
                      then emissions_of ?ev (fst (snd (update m (execs (map Update ms) ?w'))))
                      else 0)"
  proof (intro allI)
    fix ms m x
    have "related ?r ?ev (execs (map Update ms) w) (execs (map Update ms) ?w')"
      using sub(2) unfolding w by (rule updates_related) simp_all
    from update_related [OF this, of f cb m]
    show "count_list (fst (snd (update m (execs (map Update ms) ?w')))) x
                 = count_list (fst (snd (update m (execs (map Update ms) w)))) x
                   + (if x = Callback cb
                              (ArgValue (get (fst (update m (execs (map Update ms) ?w'))) f))
                      then emissions_of ?ev (fst (snd (update m (execs (map Update ms) ?w'))))
                      else 0)"
      by simp
  qed
  have "subscribe f cb w = Some (?w', [Callback cb (ArgValue (get w f))], ?u)
        \<and> fst ?w' = fst w \<and> state (snd ?w') = state (snd w)
        \<and> (emitter (snd ?w'), ?u) = em_on (emitter (snd w)) ?ev (ValueCb f cb)"
    using sub(1) by (simp add: w)
  with cnt show ?thesis by blast
qed

lemma ex_subscribed_log:
  "fst (snd (update [edit_u1, edit_count] (exec (Subscribe ''count'' 5) ex_world)))
   = [EmitCall ''users:updated'' [edit_u1], EmitCall ''count:updated'' [edit_count],
      Callback 5 (ArgValue (VRef 2))]"
  by (simp add: ex_defs groupPatchesByField_def edit_defs em_defs eventName_def Let_def split_beta
      property_def extractSecondKeysFromPatches_def)

lemma ex_plain_log:
  "fst (snd (update [edit_u1, edit_count] ex_world))
   = [EmitCall ''users:updated'' [edit_u1], EmitCall ''count:updated'' [edit_count]]"
  by (simp add: ex_defs groupPatchesByField_def edit_defs em_defs eventName_def Let_def split_beta)

theorem value_subscription_witness:
  "''count'' \<in> set (object_keys (deref ex_heap 0))
   \<and> ex_world = execs [] (createObservableStore reportEdits ex_heap 0 None)
   \<and> get ex_world ''count'' = VRef 2
   \<and> map_option (fst \<circ> snd) (subscribe ''count'' 5 ex_world) = Some [Callback 5 (ArgValue (VRef 2))]
   \<and> emissions_of ''count:updated''
        (fst (snd (update [edit_u1, edit_count] (exec (Subscribe ''count'' 5) ex_world)))) = 1
   \<and> count_list (fst (snd (update [edit_u1, edit_count] ex_world)))
        (Callback 5 (ArgValue (VRef 2))) = 0
   \<and> count_list (fst (snd (update [edit_u1, edit_count] (exec (Subscribe ''count'' 5) ex_world))))
        (Callback 5 (ArgValue (VRef 2))) = 1"
proof -
  have k: "''count'' \<in> set (object_keys (deref ex_heap 0))"
    by (simp add: ex_defs)
  have e: "ex_world = execs [] (createObservableStore reportEdits ex_heap 0 None)"
    by (simp add: ex_world_def)
  have g: "get ex_world ''count'' = VRef 2"
    by (simp add: ex_defs property_def)
  from value_subscription [OF k e, of 5] obtain w' u where
    s: "subscribe ''count'' 5 ex_world = Some (w', [Callback 5 (ArgValue (get ex_world ''count''))], u)"
    by blast
  have m: "emissions_of ''count:updated''
        (fst (snd (update [edit_u1, edit_count] (exec (Subscribe ''count'' 5) ex_world)))) = 1"
    unfolding ex_subscribed_log by (simp add: emissions_of_def)
  have c4: "map_option (fst \<circ> snd) (subscribe ''count'' 5 ex_world)
              = Some [Callback 5 (ArgValue (VRef 2))]"
    using s g by simp
  have c6: "count_list (fst (snd (update [edit_u1, edit_count] ex_world)))
        (Callback 5 (ArgValue (VRef 2))) = 0"
    unfolding ex_plain_log by simp
  have c7: "count_list
        (fst (snd (update [edit_u1, edit_count] (exec (Subscribe ''count'' 5) ex_world))))
        (Callback 5 (ArgValue (VRef 2))) = 1"
    unfolding ex_subscribed_log by simp
  from k e g c4 m c6 c7 show ?thesis by blast
qed

end
